theory Spec2Isabelle
  imports Complex_Main
begin

section \<open>The CrossOver grid world (ma\_gym/envs/crossover/crossover\_new.py)\<close>

text \<open>
  The class \<open>CrossOver\<close> is embedded as a record of its mutable attributes and one
  HOL function per method. A method that raises returns \<open>Raise e\<close> together with the
  state as it stands at the raise: a Python exception does not undo the assignments made
  before it. Positions are the two-element lists of the source, read as pairs of
  unbounded integers; the numpy arrays are lists of rows.
\<close>

subsection \<open>Errors and outcomes\<close>

datatype error = TypeError | AttributeError | KeyError | IndexError | ActionNotFound

datatype 'a outcome = Raise error | Return 'a

type_synonym pos = "int \<times> int"
type_synonym grid = "int list list"
type_synonym obs = "rat list list"

subsection \<open>Constants set by the constructor\<close>

definition grid_shape :: "nat \<times> nat" where
  "grid_shape = (2, 8)"

definition n_agents :: nat where
  "n_agents = 4"

definition max_steps :: int where
  "max_steps = 100"

datatype space = Discrete nat

text \<open>
  Modelled from the spec: the container \<open>MultiAgentActionSpace\<close>
  (ma\_gym/envs/utils/action\_space.py) is not among the sources; the spec takes it as an
  opaque list of discrete action spaces, so it is the list it is built from.
\<close>

definition MultiAgentActionSpace :: "space list \<Rightarrow> space list" where
  "MultiAgentActionSpace agents_action_space = agents_action_space"

definition action_space :: "space list" where
  "action_space = MultiAgentActionSpace (map (\<lambda>_. Discrete 5) [0..<2])"

definition init_agent_pos :: "nat \<rightharpoonup> pos" where
  "init_agent_pos =
     [0 \<mapsto> (0, 1), 1 \<mapsto> (2, 1),
      2 \<mapsto> (0, int (snd grid_shape) - 2), 3 \<mapsto> (2, int (snd grid_shape) - 2)]"

definition final_agent_pos :: "nat \<rightharpoonup> pos" where
  "final_agent_pos =
     [0 \<mapsto> (0, int (snd grid_shape) - 1), 1 \<mapsto> (2, int (snd grid_shape) - 1),
      2 \<mapsto> (0, 0), 3 \<mapsto> (2, 0)]"

text \<open>The keys of the two position tables, in the order the dictionaries list them.\<close>

definition agent_ids :: "nat list" where
  "agent_ids = [0, 1, 2, 3]"

text \<open>The keys of the module-level table \<open>AGENT_COLORS\<close>.\<close>

definition AGENT_COLORS_keys :: "nat list" where
  "AGENT_COLORS_keys = [0, 1]"

subsection \<open>Arrays\<close>

text \<open>
  A numpy index \<open>i\<close> on an axis of size \<open>n\<close> is valid for \<open>-n \<le> i < n\<close>; a negative
  one counts from the end; any other raises IndexError.
\<close>

definition np_index :: "int \<Rightarrow> nat \<Rightarrow> nat option" where
  "np_index i n =
     (if 0 \<le> i \<and> i < int n then Some (nat i)
      else if - int n \<le> i \<and> i < 0 then Some (nat (i + int n))
      else None)"

definition grid_get :: "grid \<Rightarrow> pos \<Rightarrow> error + int" where
  "grid_get g p =
     (case np_index (fst p) (length g) of
        None \<Rightarrow> Inl IndexError
      | Some r \<Rightarrow>
          (case np_index (snd p) (length (g ! r)) of
             None \<Rightarrow> Inl IndexError
           | Some c \<Rightarrow> Inr (g ! r ! c)))"

definition grid_set :: "grid \<Rightarrow> pos \<Rightarrow> int \<Rightarrow> error + grid" where
  "grid_set g p v =
     (case np_index (fst p) (length g) of
        None \<Rightarrow> Inl IndexError
      | Some r \<Rightarrow>
          (case np_index (snd p) (length (g ! r)) of
             None \<Rightarrow> Inl IndexError
           | Some c \<Rightarrow> Inr (g[r := (g ! r)[c := v]])))"

text \<open>
  \<open>__create_grid\<close>: every cell a wall (\<open>-1\<close>), then row \<open>rows // 2\<close> freed, then the
  two leftmost and the two rightmost columns freed.
\<close>

definition create_grid :: grid where
  "create_grid =
     (let rows = fst grid_shape; cols = snd grid_shape;
          g0 = replicate rows (replicate cols (- 1));
          g1 = g0[rows div 2 := replicate cols 0];
          g2 = map (\<lambda>row. row[0 := 0, 1 := 0]) g1;
          g3 = map (\<lambda>row. row[cols - 1 := 0, cols - 2 := 0]) g2
      in g3)"

subsection \<open>The environment state\<close>

text \<open>
  The object while the constructor runs: the attributes that exist before its last
  assignment, \<open>self.full_observable = full_observable\<close>. \<open>step_count\<close> is \<open>None\<close>
  until the first reset; \<open>agent_dones\<close> is \<open>None\<close> while the attribute
  \<open>_agent_dones\<close> does not exist (only \<open>reset\<close> creates it).
\<close>

record unfinished_env =
  step_count :: "int option"
  step_cost :: int
  agent_pos :: "nat \<rightharpoonup> pos"
  base_grid :: grid
  full_obs :: grid
  agent_dones :: "bool list option"

text \<open>
  The constructed object has the attribute \<open>full_observable\<close> as well. \<open>reset\<close>,
  \<open>get_agent_obs\<close> and \<open>step\<close> are defined on it; on an object without the
  attribute they are not: there \<open>get_agent_obs\<close> could only raise AttributeError.
\<close>

record env = unfinished_env +
  full_observable :: bool

subsection \<open>Grid model\<close>

definition wall_exists :: "env \<Rightarrow> pos \<Rightarrow> error + bool" where
  "wall_exists s p =
     (case grid_get (base_grid s) p of Inl e \<Rightarrow> Inl e | Inr v \<Rightarrow> Inr (v = - 1))"

definition is_cell_vacant :: "env \<Rightarrow> pos \<Rightarrow> error + bool" where
  "is_cell_vacant s p =
     (let is_valid = (0 \<le> fst p \<and> fst p < int (fst grid_shape)
                      \<and> 0 \<le> snd p \<and> snd p < int (snd grid_shape))
      in if is_valid
         then (case grid_get (full_obs s) p of Inl e \<Rightarrow> Inl e | Inr v \<Rightarrow> Inr (v = 0))
         else Inr False)"

text \<open>
  \<open>__update_agent_view\<close> and \<open>__init_full_obs\<close> run inside the constructor too, so
  they are defined on every object that has at least the attributes of
  \<open>unfinished_env\<close>.
\<close>

definition update_agent_view ::
  "nat \<Rightarrow> 'a unfinished_env_scheme \<Rightarrow> unit outcome \<times> 'a unfinished_env_scheme" where
  "update_agent_view agent_i s =
     (case agent_pos s agent_i of
        None \<Rightarrow> (Raise KeyError, s)
      | Some p \<Rightarrow>
          (case grid_set (full_obs s) p (int agent_i + 1) of
             Inl e \<Rightarrow> (Raise e, s)
           | Inr g \<Rightarrow> (Return (), s\<lparr>full_obs := g\<rparr>)))"

text \<open>
  \<open>__draw_base_img\<close> builds the background picture, which is no part of the simulation
  state. The drawing helpers (ma\_gym/envs/utils/draw.py) are not among the sources and
  are taken to return; what remains is the lookup \<open>AGENT_COLORS[agent_i]\<close> for each
  key of the goal table.
\<close>

fun draw_outlines ::
  "nat list \<Rightarrow> 'a unfinished_env_scheme \<Rightarrow> unit outcome \<times> 'a unfinished_env_scheme" where
  "draw_outlines [] s = (Return (), s)"
| "draw_outlines (agent_i # rest) s =
     (if agent_i \<in> set AGENT_COLORS_keys then draw_outlines rest s
      else (Raise KeyError, s))"

definition draw_base_img ::
  "'a unfinished_env_scheme \<Rightarrow> unit outcome \<times> 'a unfinished_env_scheme" where
  "draw_base_img s = draw_outlines agent_ids s"

text \<open>The loop of \<open>__init_full_obs\<close> over the items of the position table.\<close>

fun update_views ::
  "nat list \<Rightarrow> 'a unfinished_env_scheme \<Rightarrow> unit outcome \<times> 'a unfinished_env_scheme" where
  "update_views [] s = (Return (), s)"
| "update_views (agent_i # rest) s =
     (case update_agent_view agent_i s of
        (Raise e, s') \<Rightarrow> (Raise e, s')
      | (Return u, s') \<Rightarrow> update_views rest s')"

definition init_full_obs ::
  "'a unfinished_env_scheme \<Rightarrow> unit outcome \<times> 'a unfinished_env_scheme" where
  "init_full_obs s =
     (let s1 = s\<lparr>agent_pos := init_agent_pos\<rparr>;
          s2 = s1\<lparr>full_obs := create_grid\<rparr>
      in case update_views agent_ids s2 of
           (Raise e, s3) \<Rightarrow> (Raise e, s3)
         | (Return u, s3) \<Rightarrow> draw_base_img s3)"

subsection \<open>Observations\<close>

text \<open>
  The three quotients of an observation are floats in the source; here they are the
  exact rationals, the rounding is not modelled.
\<close>

fun agent_obs_loop :: "nat list \<Rightarrow> env \<Rightarrow> error + obs" where
  "agent_obs_loop [] s = Inr []"
| "agent_obs_loop (agent_i # rest) s =
     (case agent_pos s agent_i of
        None \<Rightarrow> Inl KeyError
      | Some p \<Rightarrow>
          (case step_count s of
             None \<Rightarrow> Inl TypeError
           | Some n \<Rightarrow>
               (case agent_obs_loop rest s of
                  Inl e \<Rightarrow> Inl e
                | Inr os \<Rightarrow>
                    Inr ([of_int (fst p + 1) / of_nat (fst grid_shape),
                          of_int (snd p + 1) / of_nat (snd grid_shape),
                          of_int n / of_int max_steps] # os))))"

definition get_agent_obs :: "env \<Rightarrow> error + obs" where
  "get_agent_obs s =
     (case agent_obs_loop [0..<n_agents] s of
        Inl e \<Rightarrow> Inl e
      | Inr os \<Rightarrow>
          if full_observable s then Inr (replicate n_agents (concat os)) else Inr os)"

subsection \<open>Construction and reset\<close>

definition reset :: "env \<Rightarrow> obs outcome \<times> env" where
  "reset s =
     (case init_full_obs s of
        (Raise e, s1) \<Rightarrow> (Raise e, s1)
      | (Return u, s1) \<Rightarrow>
          (let s2 = s1\<lparr>step_count := Some 0\<rparr>;
               s3 = s2\<lparr>agent_dones := Some (replicate n_agents False)\<rparr>
           in case get_agent_obs s3 of
                Inl e \<Rightarrow> (Raise e, s3)
              | Inr os \<Rightarrow> (Return os, s3)))"

text \<open>
  \<open>__init__\<close>: the attributes are assigned in the source's order; \<open>agent_pos\<close> is the
  empty table and \<open>agent_dones\<close> is \<open>None\<close> while they do not exist. The second
  component is the object as \<open>__init_full_obs\<close> leaves it: it has no attribute
  \<open>full_observable\<close>. Only when \<open>__init_full_obs\<close> returns does the constructor
  assign that attribute and return the finished object.
\<close>

definition CrossOver_init :: "bool \<Rightarrow> int \<Rightarrow> env outcome \<times> unfinished_env" where
  "CrossOver_init full_observable_arg step_cost_arg =
     (let s = \<lparr>step_count = None, step_cost = step_cost_arg, agent_pos = Map.empty,
               base_grid = create_grid, full_obs = create_grid, agent_dones = None\<rparr>
      in case init_full_obs s of
           (Raise e, s') \<Rightarrow> (Raise e, s')
         | (Return u, s') \<Rightarrow>
             (Return \<lparr>step_count = step_count s', step_cost = step_cost s',
                      agent_pos = agent_pos s', base_grid = base_grid s',
                      full_obs = full_obs s', agent_dones = agent_dones s',
                      full_observable = full_observable_arg\<rparr>, s'))"

subsection \<open>Movement\<close>

text \<open>The \<open>if\<close>/\<open>elif\<close> chain of \<open>__update_agent_pos\<close> that computes \<open>next_pos\<close>.\<close>

definition next_pos_of :: "pos \<Rightarrow> int \<Rightarrow> error + pos option" where
  "next_pos_of curr_pos move =
     (if move = 0 then Inr (Some (fst curr_pos + 1, snd curr_pos))
      else if move = 1 then Inr (Some (fst curr_pos, snd curr_pos - 1))
      else if move = 2 then Inr (Some (fst curr_pos - 1, snd curr_pos))
      else if move = 3 then Inr (Some (fst curr_pos, snd curr_pos + 1))
      else if move = 4 then Inr None
      else Inl ActionNotFound)"

definition update_agent_pos :: "nat \<Rightarrow> int \<Rightarrow> env \<Rightarrow> unit outcome \<times> env" where
  "update_agent_pos agent_i move s =
     (case agent_pos s agent_i of
        None \<Rightarrow> (Raise KeyError, s)
      | Some curr_pos \<Rightarrow>
          (case next_pos_of curr_pos move of
             Inl e \<Rightarrow> (Raise e, s)
           | Inr None \<Rightarrow> (Return (), s)
           | Inr (Some next_pos) \<Rightarrow>
               (case is_cell_vacant s next_pos of
                  Inl e \<Rightarrow> (Raise e, s)
                | Inr vacant \<Rightarrow>
                    if vacant then
                      (let s1 = s\<lparr>agent_pos := (agent_pos s)(agent_i \<mapsto> next_pos)\<rparr>
                       in case grid_set (full_obs s1) curr_pos 0 of
                            Inl e \<Rightarrow> (Raise e, s1)
                          | Inr g \<Rightarrow> update_agent_view agent_i (s1\<lparr>full_obs := g\<rparr>))
                    else (Return (), s))))"

definition is_agent_done :: "nat \<Rightarrow> env \<Rightarrow> error + bool" where
  "is_agent_done agent_i s =
     (case agent_pos s agent_i of
        None \<Rightarrow> Inl KeyError
      | Some p \<Rightarrow>
          (case final_agent_pos agent_i of
             None \<Rightarrow> Inl KeyError
           | Some q \<Rightarrow> Inr (p = q)))"

subsection \<open>One step\<close>

text \<open>
  The body of the loop of \<open>step\<close> for one pair \<open>(agent_i, action)\<close> of
  \<open>enumerate(agents_action)\<close>; the rewards list is threaded through.
\<close>

definition step_agent :: "nat \<Rightarrow> int \<Rightarrow> int list \<Rightarrow> env \<Rightarrow> int list outcome \<times> env" where
  "step_agent agent_i action rewards s =
     (case agent_dones s of
        None \<Rightarrow> (Raise AttributeError, s)
      | Some ds \<Rightarrow>
          if \<not> agent_i < length ds then (Raise IndexError, s)
          else if ds ! agent_i then (Return rewards, s)
          else
            (case update_agent_pos agent_i action s of
               (Raise e, s1) \<Rightarrow> (Raise e, s1)
             | (Return u, s1) \<Rightarrow>
                 (case is_agent_done agent_i s1 of
                    Inl e \<Rightarrow> (Raise e, s1)
                  | Inr d \<Rightarrow>
                      (let s2 = s1\<lparr>agent_dones := Some (ds[agent_i := d])\<rparr>
                       in if d then
                            (if agent_i < length rewards
                             then (Return (rewards[agent_i := 5]), s2)
                             else (Raise IndexError, s2))
                          else (Return rewards, s2)))))"

text \<open>The loop itself: \<open>agent_i\<close> counts up from the first argument.\<close>

fun step_loop :: "nat \<Rightarrow> int list \<Rightarrow> int list \<Rightarrow> env \<Rightarrow> int list outcome \<times> env" where
  "step_loop agent_i [] rewards s = (Return rewards, s)"
| "step_loop agent_i (action # rest) rewards s =
     (case step_agent agent_i action rewards s of
        (Raise e, s') \<Rightarrow> (Raise e, s')
      | (Return rewards', s') \<Rightarrow> step_loop (agent_i + 1) rest rewards' s')"

text \<open>The truncation loop: \<open>for i in range(self.n_agents): self._agent_dones[i] = True\<close>.\<close>

fun truncate_loop :: "nat list \<Rightarrow> env \<Rightarrow> unit outcome \<times> env" where
  "truncate_loop [] s = (Return (), s)"
| "truncate_loop (i # rest) s =
     (case agent_dones s of
        None \<Rightarrow> (Raise AttributeError, s)
      | Some ds \<Rightarrow>
          if i < length ds then truncate_loop rest (s\<lparr>agent_dones := Some (ds[i := True])\<rparr>)
          else (Raise IndexError, s))"

type_synonym step_result = "obs \<times> int list \<times> bool list"

definition step :: "env \<Rightarrow> int list \<Rightarrow> step_result outcome \<times> env" where
  "step s agents_action =
     (case step_count s of
        None \<Rightarrow> (Raise TypeError, s)
      | Some n \<Rightarrow>
          (let s1 = s\<lparr>step_count := Some (n + 1)\<rparr>;
               rewards = replicate n_agents (step_cost s1)
           in case step_loop 0 agents_action rewards s1 of
                (Raise e, s2) \<Rightarrow> (Raise e, s2)
              | (Return rewards', s2) \<Rightarrow>
                  (case (if n + 1 \<ge> max_steps then truncate_loop [0..<n_agents] s2
                         else (Return (), s2)) of
                     (Raise e, s3) \<Rightarrow> (Raise e, s3)
                   | (Return u, s3) \<Rightarrow>
                       (case get_agent_obs s3 of
                          Inl e \<Rightarrow> (Raise e, s3)
                        | Inr os \<Rightarrow>
                            (case agent_dones s3 of
                               None \<Rightarrow> (Raise AttributeError, s3)
                             | Some ds \<Rightarrow> (Return (os, rewards', ds), s3))))))"

text \<open>
  A sequence of \<open>step\<close> calls on one environment. A call that raises leaves the state
  as it was at the raise, and the next call goes on from there. The result lists, call
  by call, the outcome and the state after the call.
\<close>

fun run :: "env \<Rightarrow> int list list \<Rightarrow> (step_result outcome \<times> env) list" where
  "run s [] = []"
| "run s (agents_action # rest) =
     (case step s agents_action of (r, s') \<Rightarrow> (r, s') # run s' rest)"

subsection \<open>Predicates on states\<close>

text \<open>A position inside the array, by the bounds test of \<open>_is_cell_vacant\<close>.\<close>

definition in_bounds :: "pos \<Rightarrow> bool" where
  "in_bounds p =
     (0 \<le> fst p \<and> fst p < int (fst grid_shape) \<and> 0 \<le> snd p \<and> snd p < int (snd grid_shape))"

text \<open>A list of rows with the shape of the numpy arrays of the source.\<close>

definition shape_ok :: "grid \<Rightarrow> bool" where
  "shape_ok g =
     (length g = fst grid_shape \<and> list_all (\<lambda>row. length row = snd grid_shape) g)"

text \<open>The array after a write at an index inside it.\<close>

definition put_cell :: "grid \<Rightarrow> pos \<Rightarrow> int \<Rightarrow> grid" where
  "put_cell g p v = g[nat (fst p) := (g ! nat (fst p))[nat (snd p) := v]]"

text \<open>
  The attributes an episode needs are there: a step counter, one done flag per agent,
  a stored position for every agent.
\<close>

definition wf_env :: "env \<Rightarrow> bool" where
  "wf_env s =
     (step_count s \<noteq> None
      \<and> (case agent_dones s of None \<Rightarrow> False | Some ds \<Rightarrow> length ds = n_agents)
      \<and> list_all (\<lambda>i. agent_pos s i \<noteq> None) [0..<n_agents])"

text \<open>Agent \<open>i\<close> is stored inside the array and the live grid shows its code there.\<close>

definition occupies :: "env \<Rightarrow> nat \<Rightarrow> bool" where
  "occupies s i =
     (case agent_pos s i of
        None \<Rightarrow> False
      | Some p \<Rightarrow> in_bounds p \<and> grid_get (full_obs s) p = Inr (int i + 1))"

text \<open>The positions of the array, row by row.\<close>

definition cells :: "pos list" where
  "cells =
     concat (map (\<lambda>r. map (\<lambda>c. (int r, int c)) [0..<snd grid_shape]) [0..<fst grid_shape])"

text \<open>A cell of the live grid shows an agent's code only where that agent is stored.\<close>

definition marks_stored :: "env \<Rightarrow> bool" where
  "marks_stored s =
     list_all (\<lambda>p. list_all (\<lambda>i. grid_get (full_obs s) p = Inr (int i + 1)
                                   \<longrightarrow> agent_pos s i = Some p) [0..<n_agents]) cells"

text \<open>
  The occupancy invariant: the live grid has the array's shape, shows every agent at its
  stored position, and shows no agent anywhere else.
\<close>

definition occ_inv :: "env \<Rightarrow> bool" where
  "occ_inv s =
     (shape_ok (full_obs s) \<and> list_all (occupies s) [0..<n_agents] \<and> marks_stored s)"

text \<open>The comparison of \<open>__is_agent_done\<close>, and the stored done flag of an agent.\<close>

definition at_goal :: "env \<Rightarrow> nat \<Rightarrow> bool" where
  "at_goal s i = (agent_pos s i \<noteq> None \<and> agent_pos s i = final_agent_pos i)"

definition is_done :: "env \<Rightarrow> nat \<Rightarrow> bool" where
  "is_done s i =
     (case agent_dones s of None \<Rightarrow> False | Some ds \<Rightarrow> i < length ds \<and> ds ! i)"


text \<open>There are four done flags and whoever stands on its goal is flagged done.\<close>

definition goal_flagged :: "env \<Rightarrow> bool" where
  "goal_flagged t =
     (\<exists>ds. agent_dones t = Some ds \<and> length ds = n_agents
           \<and> (\<forall>i<n_agents. at_goal t i \<longrightarrow> ds ! i))"

text \<open>
  Agent 0 stands at (0, 1), not done, with the wall code in the cell to its right, at
  step count \<open>n\<close>.
\<close>

definition facing_wall :: "env \<Rightarrow> int \<Rightarrow> bool" where
  "facing_wall t n =
     (step_count t = Some n
      \<and> (\<exists>ds. agent_dones t = Some ds \<and> length ds = n_agents \<and> \<not> ds ! 0)
      \<and> (\<forall>j<n_agents. agent_pos t j \<noteq> None)
      \<and> agent_pos t 0 = Some (0, 1)
      \<and> grid_get (full_obs t) (0, 2) = Inr (- 1))"

subsection \<open>Sample states\<close>

text \<open>
  A state at the start of an episode in which every agent stands inside the array and
  the live grid shows it: agents 0 and 2 in the corners of row 0 as the initial table
  has them, agents 1 and 3 below them on row 1.
\<close>

definition corridor_env :: env where
  "corridor_env =
     \<lparr>step_count = Some 0, step_cost = 0,
      agent_pos = [0 \<mapsto> (0, 1), 1 \<mapsto> (1, 1), 2 \<mapsto> (0, 6), 3 \<mapsto> (1, 6)],
      base_grid = create_grid,
      full_obs = [[0, 1, - 1, - 1, - 1, - 1, 3, 0], [0, 2, 0, 0, 0, 0, 4, 0]],
      agent_dones = Some [False, False, False, False],
      full_observable = False\<rparr>"

text \<open>The same state after the step budget has run out: every flag forced to true.\<close>

definition truncated_env :: env where
  "truncated_env =
     corridor_env\<lparr>step_count := Some 100, agent_dones := Some [True, True, True, True]\<rparr>"

text \<open>
  A state later in an episode: agents 0 and 2 have swapped sides and each stands one
  cell away from its goal, (0, 7) and (0, 0).
\<close>

definition crossed_env :: env where
  "crossed_env =
     \<lparr>step_count = Some 12, step_cost = 0,
      agent_pos = [0 \<mapsto> (0, 6), 1 \<mapsto> (1, 1), 2 \<mapsto> (0, 1), 3 \<mapsto> (1, 6)],
      base_grid = create_grid,
      full_obs = [[0, 3, - 1, - 1, - 1, - 1, 1, 0], [0, 2, 0, 0, 0, 0, 4, 0]],
      agent_dones = Some [False, False, False, False],
      full_observable = False\<rparr>"

text \<open>The state before call number \<open>k\<close> of a sequence of calls (counted from 0).\<close>

fun state_before :: "env \<Rightarrow> int list list \<Rightarrow> nat \<Rightarrow> env" where
  "state_before s ass 0 = s"
| "state_before s ass (Suc k) = snd (run s ass ! k)"

section \<open>Arrays and single moves\<close>

lemma range_n_agents: "[0..<n_agents] = [0, 1, 2, 3]"
  by (simp add: n_agents_def upt_rec)

lemma all_agents_iff: "list_all P [0..<n_agents] \<longleftrightarrow> (\<forall>i<n_agents. P i)"
  by (auto simp: list_all_iff)

lemma np_index_in_range: "0 \<le> i \<Longrightarrow> i < int n \<Longrightarrow> np_index i n = Some (nat i)"
  by (simp add: np_index_def)

lemma in_bounds_nat:
  "in_bounds p \<Longrightarrow> nat (fst p) < fst grid_shape" "in_bounds p \<Longrightarrow> nat (snd p) < snd grid_shape"
  by (simp_all add: in_bounds_def nat_less_iff)

lemma shape_ok_row: "shape_ok g \<Longrightarrow> r < fst grid_shape \<Longrightarrow> length (g ! r) = snd grid_shape"
  by (simp add: shape_ok_def list_all_length)

lemma grid_get_in_bounds:
  assumes "shape_ok g" "in_bounds p"
  shows "grid_get g p = Inr (g ! nat (fst p) ! nat (snd p))"
proof -
  have r: "np_index (fst p) (length g) = Some (nat (fst p))"
    using assms by (simp add: np_index_in_range shape_ok_def in_bounds_def)
  have "nat (fst p) < fst grid_shape"
    using assms(2) by (rule in_bounds_nat)
  then have "length (g ! nat (fst p)) = snd grid_shape"
    using assms(1) by (rule shape_ok_row[rotated])
  then have c: "np_index (snd p) (length (g ! nat (fst p))) = Some (nat (snd p))"
    using assms(2) by (simp add: np_index_in_range in_bounds_def)
  show ?thesis by (simp add: grid_get_def r c)
qed

lemma grid_set_in_bounds:
  assumes "shape_ok g" "in_bounds p"
  shows "grid_set g p v = Inr (put_cell g p v)"
proof -
  have r: "np_index (fst p) (length g) = Some (nat (fst p))"
    using assms by (simp add: np_index_in_range shape_ok_def in_bounds_def)
  have "nat (fst p) < fst grid_shape"
    using assms(2) by (rule in_bounds_nat)
  then have "length (g ! nat (fst p)) = snd grid_shape"
    using assms(1) by (rule shape_ok_row[rotated])
  then have c: "np_index (snd p) (length (g ! nat (fst p))) = Some (nat (snd p))"
    using assms(2) by (simp add: np_index_in_range in_bounds_def)
  show ?thesis by (simp add: grid_set_def put_cell_def r c)
qed

lemma shape_ok_update:
  assumes "shape_ok g"
  shows "shape_ok (g[r := (g ! r)[c := v]])"
  using assms
  by (cases "r < length g") (auto simp: shape_ok_def list_all_length nth_list_update)

lemma grid_get_update:
  assumes "shape_ok g" "in_bounds p" "in_bounds q"
  shows "grid_get (g[nat (fst p) := (g ! nat (fst p))[nat (snd p) := v]]) q =
         (if q = p then Inr v else grid_get g q)"
proof -
  let ?g' = "g[nat (fst p) := (g ! nat (fst p))[nat (snd p) := v]]"
  have s': "shape_ok ?g'" using assms(1) by (rule shape_ok_update)
  have lr: "nat (fst p) < length g" "nat (fst q) < length g"
    using assms in_bounds_nat(1)[of p] in_bounds_nat(1)[of q] by (simp_all add: shape_ok_def)
  have lc: "nat (snd p) < length (g ! nat (fst p))"
    using assms shape_ok_row[OF assms(1), of "nat (fst p)"] in_bounds_nat[of p] by simp
  have eq: "q = p \<longleftrightarrow> nat (fst q) = nat (fst p) \<and> nat (snd q) = nat (snd p)"
    using assms(2,3) by (auto simp: in_bounds_def prod_eq_iff)
  show ?thesis
    using lr lc
    by (simp add: grid_get_in_bounds[OF s' assms(3)] grid_get_in_bounds[OF assms(1) assms(3)]
        nth_list_update eq)
qed

lemma shape_ok_put_cell: "shape_ok g \<Longrightarrow> shape_ok (put_cell g p v)"
  unfolding put_cell_def by (rule shape_ok_update)

lemma grid_get_put_cell:
  "shape_ok g \<Longrightarrow> in_bounds p \<Longrightarrow> in_bounds q \<Longrightarrow>
   grid_get (put_cell g p v) q = (if q = p then Inr v else grid_get g q)"
  unfolding put_cell_def by (rule grid_get_update)

lemma is_cell_vacant_shape:
  "shape_ok (full_obs s) \<Longrightarrow>
   is_cell_vacant s p = Inr (in_bounds p \<and> grid_get (full_obs s) p = Inr 0)"
  by (auto simp: is_cell_vacant_def in_bounds_def Let_def grid_get_in_bounds split: sum.splits)

lemma next_pos_of_invalid:
  "\<not> (0 \<le> a \<and> a \<le> 4) \<Longrightarrow> next_pos_of c a = Inl ActionNotFound"
  by (auto simp: next_pos_of_def)

lemma next_pos_of_valid:
  "0 \<le> a \<and> a \<le> 4 \<Longrightarrow> \<exists>n. next_pos_of c a = Inr n"
  by (auto simp: next_pos_of_def)

lemma next_pos_of_Inl: "next_pos_of c a = Inl e \<Longrightarrow> e = ActionNotFound \<and> \<not> (0 \<le> a \<and> a \<le> 4)"
  by (auto simp: next_pos_of_def split: if_splits)

lemma update_agent_pos_invalid:
  "agent_pos s i = Some c \<Longrightarrow> \<not> (0 \<le> a \<and> a \<le> 4) \<Longrightarrow>
   update_agent_pos i a s = (Raise ActionNotFound, s)"
  by (simp add: update_agent_pos_def next_pos_of_invalid)

lemma update_agent_pos_noop:
  "agent_pos s i = Some c \<Longrightarrow> update_agent_pos i 4 s = (Return (), s)"
  by (simp add: update_agent_pos_def next_pos_of_def)

lemma update_agent_pos_blocked:
  "agent_pos s i = Some c \<Longrightarrow> next_pos_of c a = Inr (Some np) \<Longrightarrow>
   is_cell_vacant s np = Inr False \<Longrightarrow> update_agent_pos i a s = (Return (), s)"
  by (simp add: update_agent_pos_def)

lemma update_agent_pos_move:
  assumes "shape_ok (full_obs s)" "agent_pos s i = Some c" "in_bounds c"
    "next_pos_of c a = Inr (Some np)" "in_bounds np" "grid_get (full_obs s) np = Inr 0"
  shows "update_agent_pos i a s =
         (Return (), s\<lparr>agent_pos := (agent_pos s)(i \<mapsto> np),
                        full_obs := put_cell (put_cell (full_obs s) c 0) np (int i + 1)\<rparr>)"
  using assms
  by (simp add: update_agent_pos_def is_cell_vacant_shape Let_def grid_set_in_bounds
      update_agent_view_def shape_ok_put_cell)

lemma in_bounds_cells: "in_bounds p \<longleftrightarrow> p \<in> set cells"
proof
  assume "in_bounds p"
  then have "nat (fst p) < fst grid_shape" "nat (snd p) < snd grid_shape"
    "p = (int (nat (fst p)), int (nat (snd p)))"
    by (simp_all add: in_bounds_nat in_bounds_def)
  then show "p \<in> set cells"
    unfolding cells_def by (metis (no_types, lifting) atLeast0LessThan imageI lessThan_iff
        set_concat set_map set_upt UN_I)
next
  assume "p \<in> set cells"
  then show "in_bounds p" by (auto simp: cells_def in_bounds_def)
qed

lemma marks_stored_iff:
  "marks_stored s \<longleftrightarrow>
   (\<forall>p i. in_bounds p \<and> i < n_agents \<and> grid_get (full_obs s) p = Inr (int i + 1)
          \<longrightarrow> agent_pos s i = Some p)"
  by (auto simp: marks_stored_def list_all_iff in_bounds_cells)

lemma occ_inv_move:
  assumes inv: "occ_inv s" and i: "i < n_agents" and c: "agent_pos s i = Some c"
    and np: "in_bounds np" "grid_get (full_obs s) np = Inr 0"
  shows "occ_inv (s\<lparr>agent_pos := (agent_pos s)(i \<mapsto> np),
                     full_obs := put_cell (put_cell (full_obs s) c 0) np (int i + 1)\<rparr>)"
proof -
  let ?g = "full_obs s"
  let ?g1 = "put_cell ?g c 0"
  let ?g2 = "put_cell ?g1 np (int i + 1)"
  let ?s' = "s\<lparr>agent_pos := (agent_pos s)(i \<mapsto> np), full_obs := ?g2\<rparr>"
  have sh: "shape_ok ?g" and occ: "\<And>j. j < n_agents \<Longrightarrow> occupies s j"
    using inv by (simp_all add: occ_inv_def all_agents_iff)
  have marks: "\<And>p j. in_bounds p \<Longrightarrow> j < n_agents \<Longrightarrow> grid_get ?g p = Inr (int j + 1)
                  \<Longrightarrow> agent_pos s j = Some p"
    using inv unfolding occ_inv_def marks_stored_iff by blast
  have ci: "in_bounds c" "grid_get ?g c = Inr (int i + 1)"
    using occ[OF i] c by (simp_all add: occupies_def)
  have sh1: "shape_ok ?g1" using sh by (rule shape_ok_put_cell)
  have sh2: "shape_ok ?g2" using sh1 by (rule shape_ok_put_cell)
  have g2: "grid_get ?g2 p = (if p = np then Inr (int i + 1) else if p = c then Inr 0
                               else grid_get ?g p)" if "in_bounds p" for p
    using that by (simp add: grid_get_put_cell[OF sh1 np(1)] grid_get_put_cell[OF sh ci(1)])
  have "occupies ?s' j" if j: "j < n_agents" for j
  proof (cases "j = i")
    case True
    then show ?thesis using np(1) by (simp add: occupies_def g2)
  next
    case False
    from occ[OF j] obtain pj where pj: "agent_pos s j = Some pj" "in_bounds pj"
      "grid_get ?g pj = Inr (int j + 1)"
      by (auto simp: occupies_def split: option.splits)
    have "pj \<noteq> np" using pj(3) np(2) by auto
    moreover have "pj \<noteq> c" using pj(3) ci(2) False by auto
    ultimately have "grid_get ?g2 pj = Inr (int j + 1)"
      using pj by (simp add: g2)
    then show ?thesis using False pj by (simp add: occupies_def)
  qed
  moreover have "agent_pos ?s' j = Some p"
    if "in_bounds p \<and> j < n_agents \<and> grid_get (full_obs ?s') p = Inr (int j + 1)"
    for p j
  proof (cases "p = np")
    case True
    have "in_bounds p" and "grid_get (full_obs ?s') p = Inr (int j + 1)"
      using that by simp_all
    then show ?thesis using True by (simp add: g2)
  next
    case False
    have p: "in_bounds p" and j: "j < n_agents"
      and m: "grid_get (full_obs ?s') p = Inr (int j + 1)" using that by simp_all
    have pc: "p \<noteq> c" using m p False by (auto simp: g2)
    then have old: "grid_get ?g p = Inr (int j + 1)" using m p False by (simp add: g2)
    then have "agent_pos s j = Some p" using marks[OF p j] by simp
    moreover have "j \<noteq> i" using calculation c pc by auto
    ultimately show ?thesis by simp
  qed
  then have "marks_stored ?s'" unfolding marks_stored_iff by blast
  ultimately show ?thesis using sh2 by (simp add: occ_inv_def all_agents_iff)
qed

section \<open>One agent's turn\<close>

lemma frame_update_agent_view:
  assumes "update_agent_view i s = (r, s')"
  shows "step_count s' = step_count s" "step_cost s' = step_cost s"
    "agent_dones s' = agent_dones s" "agent_pos s' = agent_pos s"
    "base_grid s' = base_grid s" "full_observable s' = full_observable s"
  using assms by (auto simp: update_agent_view_def split: option.splits sum.splits)

lemma frame_update_agent_pos:
  assumes "update_agent_pos i a s = (r, s')"
  shows "step_count s' = step_count s" "step_cost s' = step_cost s"
    "agent_dones s' = agent_dones s"
    "base_grid s' = base_grid s" "full_observable s' = full_observable s"
    "j \<noteq> i \<Longrightarrow> agent_pos s' j = agent_pos s j"
    "agent_pos s' i = None \<longleftrightarrow> agent_pos s i = None"
  using assms
  by (auto simp: update_agent_pos_def update_agent_view_def Let_def
      split: option.splits sum.splits if_splits)

lemma update_agent_pos_raise_invalid:
  assumes "update_agent_pos i a s = (r, s')" "\<not> (0 \<le> a \<and> a \<le> 4)"
  shows "s' = s \<and> (\<exists>e. r = Raise e)"
  using assms
  by (auto simp: update_agent_pos_def next_pos_of_invalid split: option.splits)

lemma update_agent_pos_occ:
  assumes inv: "occ_inv s" and i: "i < n_agents" and u: "update_agent_pos i a s = (r, s')"
  shows "occ_inv s'"
    and "0 \<le> a \<and> a \<le> 4 \<Longrightarrow> r = Return ()"
    and "\<not> (0 \<le> a \<and> a \<le> 4) \<Longrightarrow> r = Raise ActionNotFound \<and> s' = s"
proof -
  have sh: "shape_ok (full_obs s)" and occ: "occupies s i"
    using inv i by (simp_all add: occ_inv_def all_agents_iff)
  then obtain c where c: "agent_pos s i = Some c" "in_bounds c"
    by (auto simp: occupies_def split: option.splits)
  show "\<not> (0 \<le> a \<and> a \<le> 4) \<Longrightarrow> r = Raise ActionNotFound \<and> s' = s"
    using u update_agent_pos_invalid[OF c(1), of a] by auto
  have "occ_inv s' \<and> r = Return ()" if v: "0 \<le> a \<and> a \<le> 4"
  proof -
    from next_pos_of_valid[OF v] obtain n where n: "next_pos_of c a = Inr n" by blast
    show ?thesis
    proof (cases n)
      case None
      then show ?thesis using u c n inv by (simp add: update_agent_pos_def)
    next
      case (Some np)
      show ?thesis
      proof (cases "in_bounds np \<and> grid_get (full_obs s) np = Inr 0")
        case True
        then have np: "in_bounds np" "grid_get (full_obs s) np = Inr 0" by simp_all
        show ?thesis
          using u update_agent_pos_move[OF sh c(1) c(2) n[unfolded Some] np]
            occ_inv_move[OF inv i c(1) np] by simp
      next
        case False
        then have "is_cell_vacant s np = Inr False"
          using sh by (simp add: is_cell_vacant_shape)
        then show ?thesis
          using u update_agent_pos_blocked[OF c(1) n[unfolded Some]] inv by auto
      qed
    qed
  qed
  then show "0 \<le> a \<and> a \<le> 4 \<Longrightarrow> r = Return ()" by simp
  show "occ_inv s'"
  proof (cases "0 \<le> a \<and> a \<le> 4")
    case True
    then show ?thesis using \<open>0 \<le> a \<and> a \<le> 4 \<Longrightarrow> occ_inv s' \<and> r = Return ()\<close> by simp
  next
    case False
    then show ?thesis
      using u update_agent_pos_invalid[OF c(1), of a] inv by auto
  qed
qed

lemma is_agent_done_at_goal: "is_agent_done i s = Inr d \<Longrightarrow> d = at_goal s i"
  by (auto simp: is_agent_done_def at_goal_def split: option.splits)

lemma final_agent_pos_defined: "i < n_agents \<Longrightarrow> final_agent_pos i \<noteq> None"
  by (auto simp: final_agent_pos_def n_agents_def less_Suc_eq numeral_eq_Suc)

lemma is_agent_done_total:
  "i < n_agents \<Longrightarrow> agent_pos s i \<noteq> None \<Longrightarrow> is_agent_done i s = Inr (at_goal s i)"
  using final_agent_pos_defined[of i]
  by (auto simp: is_agent_done_def at_goal_def split: option.splits)

lemma at_goal_dones_upd [simp]: "at_goal (s\<lparr>agent_dones := d\<rparr>) i = at_goal s i"
  by (simp add: at_goal_def)

lemma at_goal_count_upd [simp]: "at_goal (s\<lparr>step_count := d\<rparr>) i = at_goal s i"
  by (simp add: at_goal_def)

lemma at_goal_cong: "agent_pos s' i = agent_pos s i \<Longrightarrow> at_goal s' i = at_goal s i"
  by (simp add: at_goal_def)

lemma step_agent_done:
  "agent_dones s = Some ds \<Longrightarrow> i < length ds \<Longrightarrow> ds ! i \<Longrightarrow>
   step_agent i a rs s = (Return rs, s)"
  by (simp add: step_agent_def)

lemma frame_step_agent:
  assumes "step_agent i a rs s = (r, s')"
  shows "step_count s' = step_count s" "step_cost s' = step_cost s"
    "base_grid s' = base_grid s" "full_observable s' = full_observable s"
    "j \<noteq> i \<Longrightarrow> agent_pos s' j = agent_pos s j"
    "agent_pos s' i = None \<longleftrightarrow> agent_pos s i = None"
  using assms
  by (auto simp: step_agent_def Let_def
      split: option.splits sum.splits if_splits prod.splits outcome.splits
      dest: frame_update_agent_pos)

lemma step_agent_dones:
  assumes "step_agent i a rs s = (r, s')" "agent_dones s = Some ds"
  shows "\<exists>ds'. agent_dones s' = Some ds' \<and> length ds' = length ds \<and>
           (\<forall>j. j \<noteq> i \<longrightarrow> ds' ! j = ds ! j) \<and>
           (i < length ds \<and> ds ! i \<longrightarrow> s' = s)"
  using assms
  by (auto simp: step_agent_def Let_def
      split: option.splits sum.splits if_splits prod.splits outcome.splits
      dest: frame_update_agent_pos(3))

lemma step_agent_return:
  assumes "step_agent i a rs s = (Return rs', s')" "agent_dones s = Some ds" "\<not> ds ! i"
  shows "i < length ds" "agent_dones s' = Some (ds[i := at_goal s' i])"
    "rs' = (if at_goal s' i then rs[i := 5] else rs)" "at_goal s' i \<Longrightarrow> i < length rs"
  using assms
  by (auto simp: step_agent_def Let_def
      split: option.splits sum.splits if_splits prod.splits outcome.splits
      dest: frame_update_agent_pos(3) is_agent_done_at_goal)

section \<open>The loops of a step\<close>

lemma step_loop_inv:
  assumes pres: "\<And>i a rs s r s'. P s \<Longrightarrow> step_agent i a rs s = (r, s') \<Longrightarrow> P s'"
  shows "P s \<Longrightarrow> step_loop i as rs s = (r, s') \<Longrightarrow> P s'"
proof (induction as arbitrary: i rs s)
  case Nil
  then show ?case by simp
next
  case (Cons a as)
  obtain r1 s1 where a: "step_agent i a rs s = (r1, s1)" by (cases "step_agent i a rs s")
  have p1: "P s1" using pres[OF Cons.prems(1) a] .
  show ?case
  proof (cases r1)
    case (Raise e)
    then show ?thesis using Cons.prems(2) a p1 by simp
  next
    case (Return rs1)
    then have "step_loop (i + 1) as rs1 s1 = (r, s')" using Cons.prems(2) a by simp
    then show ?thesis using Cons.IH[OF p1] by blast
  qed
qed

lemma truncate_loop_inv:
  assumes pres: "\<And>s ds i. P s \<Longrightarrow> agent_dones s = Some ds \<Longrightarrow> i < length ds \<Longrightarrow>
                   P (s\<lparr>agent_dones := Some (ds[i := True])\<rparr>)"
  shows "P s \<Longrightarrow> truncate_loop is s = (r, s') \<Longrightarrow> P s'"
proof (induction "is" arbitrary: s)
  case Nil
  then show ?case by simp
next
  case (Cons i "is")
  show ?case
  proof (cases "agent_dones s")
    case None
    then show ?thesis using Cons.prems by simp
  next
    case (Some ds)
    show ?thesis
    proof (cases "i < length ds")
      case True
      then have "truncate_loop is (s\<lparr>agent_dones := Some (ds[i := True])\<rparr>) = (r, s')"
        using Cons.prems(2) Some by simp
      then show ?thesis using Cons.IH[OF pres[OF Cons.prems(1) Some True]] by blast
    next
      case False
      then show ?thesis using Cons.prems Some by simp
    qed
  qed
qed

text \<open>Everything but the done flags is left alone by the truncation loop.\<close>

lemma truncate_loop_frame:
  assumes "truncate_loop is s = (r, s')"
  shows "agent_pos s' = agent_pos s \<and> full_obs s' = full_obs s \<and> step_count s' = step_count s
         \<and> step_cost s' = step_cost s \<and> base_grid s' = base_grid s
         \<and> full_observable s' = full_observable s"
  by (rule truncate_loop_inv[where P = "\<lambda>t. agent_pos t = agent_pos s \<and> full_obs t = full_obs s
        \<and> step_count t = step_count s \<and> step_cost t = step_cost s \<and> base_grid t = base_grid s
        \<and> full_observable t = full_observable s", OF _ _ assms]) simp_all

lemma truncate_loop_dones:
  assumes "truncate_loop is s = (r, s')" "agent_dones s = Some ds"
  shows "\<exists>ds'. agent_dones s' = Some ds' \<and> length ds' = length ds \<and> (\<forall>j. ds ! j \<longrightarrow> ds' ! j)"
  by (rule truncate_loop_inv[where P = "\<lambda>t. \<exists>ds'. agent_dones t = Some ds' \<and> length ds' = length ds
        \<and> (\<forall>j. ds ! j \<longrightarrow> ds' ! j)", OF _ _ assms(1)])
    (auto simp: assms(2) nth_list_update)

lemma list4: "length ds = n_agents \<Longrightarrow> \<exists>a b c d. ds = [a, b, c, d]"
  by (auto simp: n_agents_def numeral_eq_Suc length_Suc_conv)

lemma truncate_all:
  assumes "agent_dones s = Some ds" "length ds = n_agents"
  shows "truncate_loop [0..<n_agents] s
         = (Return (), s\<lparr>agent_dones := Some (replicate n_agents True)\<rparr>)"
proof -
  from list4[OF assms(2)] obtain a b c d where "ds = [a, b, c, d]" by blast
  then show ?thesis
    using assms(1) by (simp add: range_n_agents) (simp add: n_agents_def numeral_eq_Suc)
qed

lemma get_agent_obs_total:
  assumes "step_count s \<noteq> None" "list_all (\<lambda>i. agent_pos s i \<noteq> None) [0..<n_agents]"
  shows "\<exists>os. get_agent_obs s = Inr os"
  using assms
  by (auto simp: get_agent_obs_def range_n_agents split: sum.splits option.splits)

text \<open>What a returning loop has done, agent by agent.\<close>

lemma step_loop_char:
  assumes "step_loop i as rs s = (Return rs', s')" "agent_dones s = Some ds"
  shows "\<exists>ds'. agent_dones s' = Some ds' \<and> length ds' = length ds \<and> length rs' = length rs
           \<and> (as \<noteq> [] \<longrightarrow> i + length as \<le> length ds)
           \<and> (\<forall>j. if i \<le> j \<and> j < i + length as \<and> \<not> ds ! j
                   then ds' ! j = at_goal s' j \<and> rs' ! j = (if at_goal s' j then 5 else rs ! j)
                   else ds' ! j = ds ! j \<and> rs' ! j = rs ! j \<and> agent_pos s' j = agent_pos s j)"
  using assms
proof (induction as arbitrary: i rs s ds)
  case Nil
  then show ?case by auto
next
  case (Cons a as)
  obtain r1 s1 where a: "step_agent i a rs s = (r1, s1)" by (cases "step_agent i a rs s")
  then obtain rs1 where r1: "r1 = Return rs1" and rest: "step_loop (i + 1) as rs1 s1 = (Return rs', s')"
    using Cons.prems(1) by (cases r1) simp_all
  have a': "step_agent i a rs s = (Return rs1, s1)" using a r1 by simp
  have ilen: "i < length ds"
    using a' Cons.prems(2) by (auto simp: step_agent_def split: if_splits)
  from step_agent_dones[OF a' Cons.prems(2)] obtain ds1 where ds1:
    "agent_dones s1 = Some ds1" "length ds1 = length ds" "\<forall>j. j \<noteq> i \<longrightarrow> ds1 ! j = ds ! j"
    "ds ! i \<longrightarrow> s1 = s"
    using ilen by blast
  from Cons.IH[OF rest ds1(1)] obtain ds' where ih:
    "agent_dones s' = Some ds'" "length ds' = length ds1" "length rs' = length rs1"
    "as \<noteq> [] \<longrightarrow> i + 1 + length as \<le> length ds1"
    "\<And>j. if i + 1 \<le> j \<and> j < i + 1 + length as \<and> \<not> ds1 ! j
         then ds' ! j = at_goal s' j \<and> rs' ! j = (if at_goal s' j then 5 else rs1 ! j)
         else ds' ! j = ds1 ! j \<and> rs' ! j = rs1 ! j \<and> agent_pos s' j = agent_pos s1 j"
    by blast
  have at_i: "ds' ! i = ds1 ! i" "rs' ! i = rs1 ! i" "agent_pos s' i = agent_pos s1 i"
    using ih(5)[of i] by simp_all
  have goal_i: "at_goal s' i = at_goal s1 i" using at_i(3) by (rule at_goal_cong)
  have head: "if \<not> ds ! i
       then ds1 ! i = at_goal s1 i \<and> rs1 ! i = (if at_goal s1 i then 5 else rs ! i)
       else ds1 = ds \<and> rs1 = rs \<and> s1 = s"
  proof (cases "ds ! i")
    case True
    then show ?thesis
      using a' step_agent_done[OF Cons.prems(2) ilen True, of a rs] ds1(1) Cons.prems(2) by auto
  next
    case False
    show ?thesis
      using step_agent_return[OF a' Cons.prems(2) False] ds1(1) ilen False by auto
  qed
  have others: "\<And>j. j \<noteq> i \<Longrightarrow> rs1 ! j = rs ! j \<and> agent_pos s1 j = agent_pos s j"
  proof -
    fix j assume j: "j \<noteq> i"
    have "agent_pos s1 j = agent_pos s j" using frame_step_agent(5)[OF a' j] .
    moreover have "rs1 ! j = rs ! j"
    proof (cases "ds ! i")
      case True
      then show ?thesis using head by simp
    next
      case False
      then show ?thesis using step_agent_return(3)[OF a' Cons.prems(2) False] j by auto
    qed
    ultimately show "rs1 ! j = rs ! j \<and> agent_pos s1 j = agent_pos s j" by simp
  qed
  have len1: "length rs1 = length rs"
  proof (cases "ds ! i")
    case True
    then show ?thesis using head by simp
  next
    case False
    then show ?thesis using step_agent_return(3)[OF a' Cons.prems(2) False] by auto
  qed
  have "if i \<le> j \<and> j < i + length (a # as) \<and> \<not> ds ! j
        then ds' ! j = at_goal s' j \<and> rs' ! j = (if at_goal s' j then 5 else rs ! j)
        else ds' ! j = ds ! j \<and> rs' ! j = rs ! j \<and> agent_pos s' j = agent_pos s j" for j
  proof (cases "j = i")
    case True
    then show ?thesis using head at_i goal_i by (auto split: if_splits)
  next
    case False
    then show ?thesis using ih(5)[of j] others[OF False] ds1(3) by (auto split: if_splits)
  qed
  moreover have "i + length (a # as) \<le> length ds"
    using ih(4) ds1(2) ilen by (cases as) simp_all
  ultimately show ?case using ih(1,2,3) ds1(2) len1 by auto
qed

section \<open>A whole step\<close>

text \<open>The three ways a call of step can go.\<close>

lemma step_cases:
  assumes "step s as = (r, s')"
  shows "(step_count s = None \<and> r = Raise TypeError \<and> s' = s)
       \<or> (\<exists>n e. step_count s = Some n \<and> r = Raise e
            \<and> step_loop 0 as (replicate n_agents (step_cost s)) (s\<lparr>step_count := Some (n + 1)\<rparr>)
                = (Raise e, s'))
       \<or> (\<exists>n rs s2 e. step_count s = Some n \<and> r = Raise e
            \<and> step_loop 0 as (replicate n_agents (step_cost s)) (s\<lparr>step_count := Some (n + 1)\<rparr>)
                = (Return rs, s2)
            \<and> max_steps \<le> n + 1 \<and> truncate_loop [0..<n_agents] s2 = (Raise e, s'))
       \<or> (\<exists>n rs s2. step_count s = Some n
            \<and> step_loop 0 as (replicate n_agents (step_cost s)) (s\<lparr>step_count := Some (n + 1)\<rparr>)
                = (Return rs, s2)
            \<and> (if max_steps \<le> n + 1 then truncate_loop [0..<n_agents] s2 else (Return (), s2))
                = (Return (), s')
            \<and> r = (case get_agent_obs s' of Inl e \<Rightarrow> Raise e
                     | Inr os \<Rightarrow>
                         (case agent_dones s' of None \<Rightarrow> Raise AttributeError
                          | Some ds \<Rightarrow> Return (os, rs, ds))))"
proof (cases "step_count s")
  case None
  then show ?thesis using assms by (simp add: step_def)
next
  case (Some n)
  let ?s1 = "s\<lparr>step_count := Some (n + 1)\<rparr>"
  obtain r1 s2 where l: "step_loop 0 as (replicate n_agents (step_cost s)) ?s1 = (r1, s2)"
    by (cases "step_loop 0 as (replicate n_agents (step_cost s)) ?s1")
  show ?thesis
  proof (cases r1)
    case (Raise e)
    then show ?thesis using assms Some l by (simp add: step_def Let_def)
  next
    case (Return rs)
    obtain rt s3 where t:
      "(if max_steps \<le> n + 1 then truncate_loop [0..<n_agents] s2 else (Return (), s2)) = (rt, s3)"
      by (cases "if max_steps \<le> n + 1 then truncate_loop [0..<n_agents] s2 else (Return (), s2)")
    show ?thesis
    proof (cases rt)
      case (Raise e)
      then have "max_steps \<le> n + 1" using t by (auto split: if_splits)
      moreover have "s' = s3 \<and> r = Raise e"
        using assms Some l Return t Raise by (auto simp: step_def Let_def)
      ultimately show ?thesis using Some l Return t Raise by auto
    next
      case (Return u)
      have "s' = s3 \<and> r = (case get_agent_obs s3 of Inl e \<Rightarrow> Raise e
                     | Inr os \<Rightarrow>
                         (case agent_dones s3 of None \<Rightarrow> Raise AttributeError
                          | Some ds \<Rightarrow> Return (os, rs, ds)))"
        using assms Some l \<open>r1 = Return rs\<close> t Return
        by (auto simp: step_def Let_def split: sum.splits option.splits)
      then show ?thesis using Some l \<open>r1 = Return rs\<close> t Return by auto
    qed
  qed
qed

lemma step_inv:
  assumes agent: "\<And>i a rs s r s'. P s \<Longrightarrow> step_agent i a rs s = (r, s') \<Longrightarrow> P s'"
    and trunc: "\<And>s ds i. P s \<Longrightarrow> agent_dones s = Some ds \<Longrightarrow> i < length ds \<Longrightarrow>
                   P (s\<lparr>agent_dones := Some (ds[i := True])\<rparr>)"
    and count: "\<And>s n. P s \<Longrightarrow> step_count s = Some n \<Longrightarrow> P (s\<lparr>step_count := Some (n + 1)\<rparr>)"
    and p: "P s" and st: "step s as = (r, s')"
  shows "P s'"
proof -
  have loop: "P t'" if "P t" "step_loop i bs rs t = (q, t')" for i bs rs t q t'
    by (rule step_loop_inv[where P = P, OF agent that])
  have tr: "P t'" if "P t" "truncate_loop is t = (q, t')" for "is" t q t'
    by (rule truncate_loop_inv[where P = P, OF trunc that])
  from step_cases[OF st] show "P s'"
  proof (elim disjE exE conjE)
    assume "s' = s" then show ?thesis using p by simp
  next
    fix n e
    assume "step_count s = Some n"
      and "step_loop 0 as (replicate n_agents (step_cost s)) (s\<lparr>step_count := Some (n + 1)\<rparr>) = (Raise e, s')"
    then show ?thesis using loop count[OF p] by blast
  next
    fix n rs s2 e
    assume "step_count s = Some n"
      and "step_loop 0 as (replicate n_agents (step_cost s)) (s\<lparr>step_count := Some (n + 1)\<rparr>) = (Return rs, s2)"
      and "truncate_loop [0..<n_agents] s2 = (Raise e, s')"
    then show ?thesis using loop count[OF p] tr by blast
  next
    fix n rs s2
    assume n: "step_count s = Some n"
      and l: "step_loop 0 as (replicate n_agents (step_cost s)) (s\<lparr>step_count := Some (n + 1)\<rparr>) = (Return rs, s2)"
      and t: "(if max_steps \<le> n + 1 then truncate_loop [0..<n_agents] s2 else (Return (), s2)) = (Return (), s')"
    have p2: "P s2" using loop[OF count[OF p n] l] .
    show ?thesis
    proof (cases "max_steps \<le> n + 1")
      case True
      then show ?thesis using t tr[OF p2] by auto
    next
      case False
      then show ?thesis using t p2 by auto
    qed
  qed
qed

lemma step_count_step:
  assumes "step_count s = Some n" "step s as = (r, s')"
  shows "step_count s' = Some (n + 1) \<and> step_cost s' = step_cost s"
proof -
  have 1: "step_cost s' = step_cost s"
    by (rule step_inv[where P = "\<lambda>t. step_cost t = step_cost s", OF _ _ _ _ assms(2)])
      (auto dest: frame_step_agent(2))
  have "step_count s' = Some (n + 1)"
    using step_cases[OF assms(2)] assms(1)
  proof (elim disjE exE conjE)
    fix m e
    assume m: "step_count s = Some m"
      and l: "step_loop 0 as (replicate n_agents (step_cost s)) (s\<lparr>step_count := Some (m + 1)\<rparr>) = (Raise e, s')"
    have "step_count s' = Some (m + 1)"
      by (rule step_loop_inv[where P = "\<lambda>t. step_count t = Some (m + 1)", OF _ _ l])
        (auto dest: frame_step_agent(1))
    then show ?thesis using m assms(1) by simp
  next
    fix m rs s2 e
    assume m: "step_count s = Some m"
      and l: "step_loop 0 as (replicate n_agents (step_cost s)) (s\<lparr>step_count := Some (m + 1)\<rparr>) = (Return rs, s2)"
      and t: "truncate_loop [0..<n_agents] s2 = (Raise e, s')"
    have "step_count s2 = Some (m + 1)"
      by (rule step_loop_inv[where P = "\<lambda>t. step_count t = Some (m + 1)", OF _ _ l])
        (auto dest: frame_step_agent(1))
    then show ?thesis using m assms(1) truncate_loop_frame[OF t] by simp
  next
    fix m rs s2
    assume m: "step_count s = Some m"
      and l: "step_loop 0 as (replicate n_agents (step_cost s)) (s\<lparr>step_count := Some (m + 1)\<rparr>) = (Return rs, s2)"
      and t: "(if max_steps \<le> m + 1 then truncate_loop [0..<n_agents] s2 else (Return (), s2)) = (Return (), s')"
    have "step_count s2 = Some (m + 1)"
      by (rule step_loop_inv[where P = "\<lambda>t. step_count t = Some (m + 1)", OF _ _ l])
        (auto dest: frame_step_agent(1))
    moreover have "step_count s' = step_count s2"
      using t truncate_loop_frame[of "[0..<n_agents]" s2 "Return ()" s'] by (auto split: if_splits)
    ultimately show ?thesis using m assms(1) by simp
  qed simp
  then show ?thesis using 1 by simp
qed

text \<open>Done agents stay done and stay put, whatever the call does.\<close>

lemma is_done_step_agent:
  assumes "step_agent i a rs t = (r, t')" "is_done t j"
  shows "is_done t' j \<and> agent_pos t' j = agent_pos t j"
proof -
  from assms(2) obtain ds where ds: "agent_dones t = Some ds" "j < length ds" "ds ! j"
    by (auto simp: is_done_def split: option.splits)
  from step_agent_dones[OF assms(1) ds(1)] obtain ds' where ds':
    "agent_dones t' = Some ds'" "length ds' = length ds" "\<forall>k. k \<noteq> i \<longrightarrow> ds' ! k = ds ! k"
    "i < length ds \<and> ds ! i \<longrightarrow> t' = t" by blast
  show ?thesis
  proof (cases "j = i")
    case True
    then show ?thesis using ds ds'(4) assms(2) by simp
  next
    case False
    then show ?thesis
      using ds ds' frame_step_agent(5)[OF assms(1) False] by (simp add: is_done_def)
  qed
qed

lemma step_keeps_done:
  assumes "step s as = (r, s')" "is_done s j"
  shows "is_done s' j \<and> agent_pos s' j = agent_pos s j"
proof -
  have 0: "is_done s j \<and> agent_pos s j = agent_pos s j" using assms(2) by simp
  show ?thesis
    by (rule step_inv[where P = "\<lambda>t. is_done t j \<and> agent_pos t j = agent_pos s j", OF _ _ _ 0 assms(1)])
      (auto dest: is_done_step_agent simp: is_done_def nth_list_update)
qed

lemma step_dones_length:
  assumes "step s as = (r, s')" "agent_dones s = Some ds"
  shows "\<exists>ds'. agent_dones s' = Some ds' \<and> length ds' = length ds"
proof -
  have 0: "\<exists>ds'. agent_dones s = Some ds' \<and> length ds' = length ds" using assms(2) by simp
  show ?thesis
    by (rule step_inv[where P = "\<lambda>t. \<exists>ds'. agent_dones t = Some ds' \<and> length ds' = length ds", OF _ _ _ 0 assms(1)])
      (auto dest: step_agent_dones)
qed

lemma step_returned_dones:
  assumes "step s as = (Return (os, rs, ds), s')"
  shows "agent_dones s' = Some ds"
  using step_cases[OF assms]
  by (elim disjE exE conjE) (auto split: sum.splits option.splits)

section \<open>Construction\<close>

lemma create_grid_eq:
  "create_grid = [[0, 0, - 1, - 1, - 1, - 1, 0, 0], [0, 0, 0, 0, 0, 0, 0, 0]]"
  by (simp add: create_grid_def grid_shape_def numeral_eq_Suc)

lemma init_full_obs_raises:
  "init_full_obs s =
     (Raise IndexError,
      s\<lparr>agent_pos := init_agent_pos,
        full_obs := [[0, 1, - 1, - 1, - 1, - 1, 0, 0], [0, 0, 0, 0, 0, 0, 0, 0]]\<rparr>)"
  by (simp add: init_full_obs_def agent_ids_def update_agent_view_def init_agent_pos_def
      grid_set_def np_index_def create_grid_eq grid_shape_def)

text \<open>
  C1. The claim is that every stored position lies inside the 2x8 array on a cell that
  is no wall, from construction on. The constructor stores the initial table, whose
  entry for agent 1 is (2, 1), outside the array, and raises IndexError when it writes
  that agent into the live grid; \<open>reset\<close> does the same on any state.
\<close>

theorem initial_table_out_of_bounds:
  "fst (CrossOver_init fo c) = Raise IndexError
   \<and> agent_pos (snd (CrossOver_init fo c)) 1 = Some (2, 1)
   \<and> fst (reset s) = Raise IndexError
   \<and> agent_pos (snd (reset s)) 1 = Some (2, 1)
   \<and> \<not> in_bounds (2, 1)"
  by (simp add: CrossOver_init_def reset_def init_full_obs_raises init_agent_pos_def
      in_bounds_def grid_shape_def)

text \<open>
  C9. The claim is one 5-way discrete space per agent, four in all. The constructor
  builds the list over \<open>range(2)\<close>: two spaces for four agents.
\<close>

theorem action_space_two_components:
  "action_space = [Discrete 5, Discrete 5] \<and> n_agents = 4 \<and> length action_space \<noteq> n_agents"
  by (simp add: action_space_def MultiAgentActionSpace_def n_agents_def upt_rec)

section \<open>Sequences of calls\<close>

lemma length_run [simp]: "length (run s ass) = length ass"
  by (induction ass arbitrary: s) (auto split: prod.splits)

lemma run_Cons_Suc: "run s (a # rest) ! Suc m = run (snd (step s a)) rest ! m"
  by (simp split: prod.splits)

lemma run_Cons_0: "run s (a # rest) ! 0 = step s a"
  by (simp split: prod.splits)

lemma state_before_Cons: "state_before s (a # rest) (Suc m) = state_before (snd (step s a)) rest m"
  by (cases m) (simp_all add: run_Cons_0 run_Cons_Suc del: run.simps)

lemma run_nth: "k < length ass \<Longrightarrow> run s ass ! k = step (state_before s ass k) (ass ! k)"
proof (induction ass arbitrary: s k)
  case Nil
  then show ?case by simp
next
  case (Cons a rest)
  show ?case
  proof (cases k)
    case 0
    then show ?thesis by (simp add: run_Cons_0 del: run.simps)
  next
    case (Suc m)
    then have "m < length rest" using Cons.prems by simp
    from Cons.IH[OF this] show ?thesis
      using Suc by (simp add: run_Cons_Suc state_before_Cons del: run.simps state_before.simps)
  qed
qed

lemma state_before_Suc:
  "k < length ass \<Longrightarrow> step (state_before s ass k) (ass ! k) = (fst (run s ass ! k), state_before s ass (Suc k))"
  by (simp add: run_nth)

lemma run_inv:
  assumes pres: "\<And>t a r t'. P t \<Longrightarrow> step t a = (r, t') \<Longrightarrow> P t'"
    and "P s" "k \<le> length ass"
  shows "P (state_before s ass k)"
  using assms(3)
proof (induction k)
  case 0
  then show ?case using assms(2) by simp
next
  case (Suc k)
  then have "P (state_before s ass k)" "k < length ass" by simp_all
  then show ?case using pres state_before_Suc by blast
qed

section \<open>The invariants of a running episode\<close>

lemma wf_env_iff:
  "wf_env s \<longleftrightarrow> (\<exists>n ds. step_count s = Some n \<and> agent_dones s = Some ds \<and> length ds = n_agents
                   \<and> (\<forall>i<n_agents. agent_pos s i \<noteq> None))"
  by (auto simp: wf_env_def all_agents_iff split: option.splits)

lemma wf_env_step_agent:
  assumes "wf_env s" "step_agent i a rs s = (r, s')"
  shows "wf_env s'"
proof -
  from assms(1) obtain n ds where w: "step_count s = Some n" "agent_dones s = Some ds"
    "length ds = n_agents" "\<forall>i<n_agents. agent_pos s i \<noteq> None"
    unfolding wf_env_iff by blast
  from step_agent_dones[OF assms(2) w(2)] obtain ds' where
    "agent_dones s' = Some ds'" "length ds' = length ds" by blast
  moreover have "agent_pos s' j \<noteq> None" if "j < n_agents" for j
    using frame_step_agent(5)[OF assms(2), of j] frame_step_agent(6)[OF assms(2)] w(4) that
    by (cases "j = i") auto
  ultimately show ?thesis
    using w frame_step_agent(1)[OF assms(2)] unfolding wf_env_iff by auto
qed

lemma occ_inv_dones_upd [simp]: "occ_inv (s\<lparr>agent_dones := d\<rparr>) = occ_inv s"
  by (simp add: occ_inv_def all_agents_iff occupies_def marks_stored_def cong: option.case_cong)

lemma occ_inv_count_upd [simp]: "occ_inv (s\<lparr>step_count := d\<rparr>) = occ_inv s"
  by (simp add: occ_inv_def all_agents_iff occupies_def marks_stored_def cong: option.case_cong)

lemma good_step_agent:
  assumes "wf_env s \<and> occ_inv s" "step_agent i a rs s = (r, s')"
  shows "wf_env s' \<and> occ_inv s'"
proof -
  have w: "wf_env s'" using assms wf_env_step_agent by blast
  from assms(1) obtain ds where ds: "agent_dones s = Some ds" "length ds = n_agents"
    unfolding wf_env_iff by blast
  have "occ_inv s'"
  proof (cases "i < n_agents \<and> \<not> ds ! i")
    case True
    obtain r1 s1 where u: "update_agent_pos i a s = (r1, s1)" by (cases "update_agent_pos i a s")
    have o1: "occ_inv s1" using update_agent_pos_occ(1)[OF _ _ u] assms(1) True by simp
    show ?thesis
      using assms(2) ds True u o1
      by (auto simp: step_agent_def Let_def split: outcome.splits sum.splits if_splits)
  next
    case False
    then have "s' = s"
      using assms(2) ds by (auto simp: step_agent_def split: if_splits)
    then show ?thesis using assms(1) by simp
  qed
  then show ?thesis using w by simp
qed

lemma good_step:
  assumes "wf_env s \<and> occ_inv s" "step s as = (r, s')"
  shows "wf_env s' \<and> occ_inv s'"
proof (rule step_inv[where P = "\<lambda>t. wf_env t \<and> occ_inv t", OF _ _ _ assms])
  show "wf_env t' \<and> occ_inv t'" if "wf_env t \<and> occ_inv t" "step_agent i a rs t = (q, t')"
    for i a rs t q t'
    using that by (rule good_step_agent)
  show "wf_env (t\<lparr>agent_dones := Some (ds[i := True])\<rparr>)
        \<and> occ_inv (t\<lparr>agent_dones := Some (ds[i := True])\<rparr>)"
    if "wf_env t \<and> occ_inv t" "agent_dones t = Some ds" "i < length ds" for t ds i
    using that by (auto simp: wf_env_iff)
  show "wf_env (t\<lparr>step_count := Some (n + 1)\<rparr>) \<and> occ_inv (t\<lparr>step_count := Some (n + 1)\<rparr>)"
    if "wf_env t \<and> occ_inv t" "step_count t = Some n" for t n
    using that by (auto simp: wf_env_iff)
qed

lemma occ_inv_distinct:
  assumes "occ_inv s" "i < n_agents" "j < n_agents" "i \<noteq> j"
  shows "agent_pos s i \<noteq> agent_pos s j"
proof
  assume eq: "agent_pos s i = agent_pos s j"
  have "occupies s i" "occupies s j" using assms by (simp_all add: occ_inv_def all_agents_iff)
  then obtain p where "grid_get (full_obs s) p = Inr (int i + 1)" "grid_get (full_obs s) p = Inr (int j + 1)"
    using eq by (auto simp: occupies_def split: option.splits)
  then show False using assms(4) by simp
qed

lemma corridor_wf: "wf_env corridor_env"
  by code_simp

lemma corridor_occ: "occ_inv corridor_env"
  by code_simp

lemma snd_run_nth: "snd (run s ass ! k) = state_before s ass (Suc k)"
  by simp

lemma good_run:
  assumes "wf_env s" "occ_inv s" "k \<le> length ass"
  shows "wf_env (state_before s ass k) \<and> occ_inv (state_before s ass k)"
  by (rule run_inv[where P = "\<lambda>t. wf_env t \<and> occ_inv t"]) (use assms good_step in blast)+

section \<open>Occupancy\<close>

text \<open>
  Once the episode attributes exist and the live grid agrees with the stored positions,
  every call of \<open>step\<close> keeps it so, whatever the action lists and also when a call
  raises; then no two agents are stored at the same position.
\<close>

lemma occupancy_kept:
  assumes "wf_env s" "occ_inv s" "k < length ass"
  shows "occ_inv (snd (run s ass ! k))
         \<and> (\<forall>i<n_agents. \<forall>j<n_agents. i \<noteq> j \<longrightarrow>
               agent_pos (snd (run s ass ! k)) i \<noteq> agent_pos (snd (run s ass ! k)) j)"
proof -
  have "occ_inv (state_before s ass (Suc k))"
    using good_run[OF assms(1,2), of "Suc k" ass] assms(3) by simp
  then show ?thesis using occ_inv_distinct by (simp del: state_before.simps add: snd_run_nth)
qed



section \<open>Done flags\<close>

lemma done_kept_run:
  assumes "is_done (state_before s ass k) i" "k \<le> m" "m \<le> length ass"
  shows "is_done (state_before s ass m) i
         \<and> agent_pos (state_before s ass m) i = agent_pos (state_before s ass k) i"
  using assms(2,3)
proof (induction m)
  case 0
  then show ?case using assms(1) by simp
next
  case (Suc m)
  show ?case
  proof (cases "k = Suc m")
    case True
    then show ?thesis using assms(1) by simp
  next
    case False
    then have ih: "is_done (state_before s ass m) i"
      "agent_pos (state_before s ass m) i = agent_pos (state_before s ass k) i"
      and m: "m < length ass"
      using Suc by simp_all
    from step_keeps_done[OF state_before_Suc[OF m] ih(1)] ih(2)
    show ?thesis by simp
  qed
qed

text \<open>
  C5. Once a call of \<open>step\<close> has returned a true done flag for agent \<open>i\<close>, every
  later call of the sequence that returns has that flag true, and the agent's stored
  position after any later call (returning or raising) is the one it had then.
\<close>

theorem done_flags_monotonic:
  assumes "k < k'" "k' < length ass"
    and "run s ass ! k = (Return (os, rs, ds), sk)" "i < length ds" "ds ! i"
  shows "agent_pos (snd (run s ass ! k')) i = agent_pos sk i
         \<and> (\<forall>os' rs' ds'. fst (run s ass ! k') = Return (os', rs', ds') \<longrightarrow> i < length ds' \<and> ds' ! i)"
proof -
  have k: "k < length ass" using assms(1,2) by simp
  have st: "step (state_before s ass k) (ass ! k) = (Return (os, rs, ds), sk)"
    using run_nth[OF k, of s] assms(3) by simp
  have sk: "sk = state_before s ass (Suc k)" using assms(3) by simp
  have "agent_dones sk = Some ds" using step_returned_dones[OF st] .
  then have d: "is_done (state_before s ass (Suc k)) i"
    using assms(4,5) sk by (simp add: is_done_def)
  have kept: "is_done (state_before s ass (Suc k')) i"
    "agent_pos (state_before s ass (Suc k')) i = agent_pos sk i"
    using done_kept_run[OF d, of "Suc k'"] assms(1,2) sk by simp_all
  have "i < length ds' \<and> ds' ! i" if "fst (run s ass ! k') = Return (os', rs', ds')" for os' rs' ds'
  proof -
    have "step (state_before s ass k') (ass ! k') = (Return (os', rs', ds'), state_before s ass (Suc k'))"
      using state_before_Suc[OF assms(2), of s] that by simp
    from step_returned_dones[OF this] show ?thesis
      using kept(1) by (simp add: is_done_def)
  qed
  then show ?thesis using kept(2) by (simp del: state_before.simps add: snd_run_nth)
qed

lemma crossed_run_0:
  "fst (run crossed_env [[3, 4, 4, 4], [1, 4, 4, 4]] ! 0)
   = Return ([[1 / 2, 1, 13 / 100], [1, 1 / 4, 13 / 100], [1 / 2, 1 / 4, 13 / 100],
              [1, 7 / 8, 13 / 100]], [5, 0, 0, 0], [True, False, False, False])"
  by code_simp

lemma crossed_run_1:
  "fst (run crossed_env [[3, 4, 4, 4], [1, 4, 4, 4]] ! 1)
   = Return ([[1 / 2, 1, 7 / 50], [1, 1 / 4, 7 / 50], [1 / 2, 1 / 4, 7 / 50],
              [1, 7 / 8, 7 / 50]], [0, 0, 0, 0], [True, False, False, False])"
  "agent_pos (snd (run crossed_env [[3, 4, 4, 4], [1, 4, 4, 4]] ! 0)) 0 = Some (0, 7)"
  by code_simp+

theorem done_flags_monotonic_witness:
  "(0::nat) < 1 \<and> 1 < length [[3, 4, 4, 4], [1, 4, 4, 4 :: int]]
   \<and> fst (run crossed_env [[3, 4, 4, 4], [1, 4, 4, 4]] ! 0)
       = Return ([[1 / 2, 1, 13 / 100], [1, 1 / 4, 13 / 100], [1 / 2, 1 / 4, 13 / 100],
                  [1, 7 / 8, 13 / 100]], [5, 0, 0, 0], [True, False, False, False])
   \<and> (0::nat) < length [True, False, False, False] \<and> [True, False, False, False] ! 0
   \<and> agent_pos (snd (run crossed_env [[3, 4, 4, 4], [1, 4, 4, 4]] ! 1)) 0 = Some (0, 7)
   \<and> fst (run crossed_env [[3, 4, 4, 4], [1, 4, 4, 4]] ! 1)
       = Return ([[1 / 2, 1, 7 / 50], [1, 1 / 4, 7 / 50], [1 / 2, 1 / 4, 7 / 50],
                  [1, 7 / 8, 7 / 50]], [0, 0, 0, 0], [True, False, False, False])"
proof -
  have h1: "(0::nat) < 1" and h2: "1 < length [[3, 4, 4, 4], [1, 4, 4, 4 :: int]]" by simp_all
  have h3: "run crossed_env [[3, 4, 4, 4], [1, 4, 4, 4]] ! 0
            = (Return ([[1 / 2, 1, 13 / 100], [1, 1 / 4, 13 / 100], [1 / 2, 1 / 4, 13 / 100],
                        [1, 7 / 8, 13 / 100]], [5, 0, 0, 0], [True, False, False, False]),
               snd (run crossed_env [[3, 4, 4, 4], [1, 4, 4, 4]] ! 0))"
    using crossed_run_0 by (metis prod.collapse)
  have h4: "(0::nat) < length [True, False, False, False]"
    and h5: "[True, False, False, False] ! 0" by simp_all
  from done_flags_monotonic[OF h1 h2 h3 h4 h5]
  have "agent_pos (snd (run crossed_env [[3, 4, 4, 4], [1, 4, 4, 4]] ! 1)) 0
        = agent_pos (snd (run crossed_env [[3, 4, 4, 4], [1, 4, 4, 4]] ! 0)) 0"
    by blast
  then show ?thesis using crossed_run_0 crossed_run_1 by simp
qed

section \<open>Truncation\<close>

lemma step_truncates:
  assumes "step_count t = Some n" "max_steps \<le> n + 1"
    and "agent_dones t = Some dt" "length dt = n_agents"
    and "step t a = (Return (os, rs, ds), t')"
  shows "ds = replicate n_agents True"
  using step_cases[OF assms(5)]
proof (elim disjE exE conjE)
  fix m rs2 s2
  assume m: "step_count t = Some m"
    and l: "step_loop 0 a (replicate n_agents (step_cost t)) (t\<lparr>step_count := Some (m + 1)\<rparr>) = (Return rs2, s2)"
    and tr: "(if max_steps \<le> m + 1 then truncate_loop [0..<n_agents] s2 else (Return (), s2)) = (Return (), t')"
    and r: "Return (os, rs, ds) = (case get_agent_obs t' of Inl e \<Rightarrow> Raise e
                     | Inr os \<Rightarrow>
                         (case agent_dones t' of None \<Rightarrow> Raise AttributeError
                          | Some ds \<Rightarrow> Return (os, rs2, ds)))"
  have "agent_dones (t\<lparr>step_count := Some (m + 1)\<rparr>) = Some dt" using assms(3) by simp
  from step_loop_char[OF l this] obtain d2 where d2: "agent_dones s2 = Some d2" "length d2 = n_agents"
    using assms(4) by auto
  have "max_steps \<le> m + 1" using m assms(1,2) by simp
  then have "t' = s2\<lparr>agent_dones := Some (replicate n_agents True)\<rparr>"
    using tr truncate_all[OF d2] by simp
  then have "agent_dones t' = Some (replicate n_agents True)" by simp
  then show ?thesis using r by (auto split: sum.splits)
qed simp_all

lemma count_run:
  assumes "step_count s = Some n" "k \<le> length ass"
  shows "step_count (state_before s ass k) = Some (n + int k)"
  using assms(2)
proof (induction k)
  case 0
  then show ?case using assms(1) by simp
next
  case (Suc k)
  then have ih: "step_count (state_before s ass k) = Some (n + int k)" and k: "k < length ass"
    by simp_all
  from step_count_step[OF ih state_before_Suc[OF k]] show ?case by (simp add: add.assoc)
qed

lemma dones_length_run:
  assumes "agent_dones s = Some ds" "k \<le> length ass"
  shows "\<exists>ds'. agent_dones (state_before s ass k) = Some ds' \<and> length ds' = length ds"
  by (rule run_inv[where P = "\<lambda>t. \<exists>ds'. agent_dones t = Some ds' \<and> length ds' = length ds"])
    (use assms step_dones_length in \<open>auto, metis\<close>)

text \<open>
  C6. From a state with the counter at 0 and four false done flags, as \<open>reset\<close> assigns
  them, the 100th call of \<open>step\<close> and every later one, when it returns, returns a done
  list whose four entries are all true, whatever the positions and the actions. Calls
  that raise count too: the counter is incremented before anything can raise.
\<close>

theorem truncation_after_max_steps:
  assumes "step_count s = Some 0" "agent_dones s = Some (replicate n_agents False)"
    and "99 \<le> k" "k < length ass"
    and "fst (run s ass ! k) = Return (os, rs, ds)"
  shows "ds = [True, True, True, True]"
proof -
  have c: "step_count (state_before s ass k) = Some (int k)"
    using count_run[OF assms(1), of k ass] assms(4) by simp
  obtain dk where dk: "agent_dones (state_before s ass k) = Some dk" "length dk = n_agents"
    using dones_length_run[OF assms(2), of k ass] assms(4) by auto
  have st: "step (state_before s ass k) (ass ! k) = (Return (os, rs, ds), state_before s ass (Suc k))"
    using state_before_Suc[OF assms(4), of s] assms(5) by simp
  have "max_steps \<le> int k + 1" using assms(3) by (simp add: max_steps_def)
  from step_truncates[OF c this dk st] show ?thesis by (simp add: n_agents_def numeral_eq_Suc)
qed

lemma run100: "fst (run corridor_env (replicate 100 [4, 4, 4, 4]) ! 99)
   = Return ([[1 / 2, 1 / 4, 1], [1, 1 / 4, 1], [1 / 2, 7 / 8, 1], [1, 7 / 8, 1]], [0, 0, 0, 0], [True, True, True, True])"
  by code_simp

theorem truncation_after_max_steps_witness:
  "step_count corridor_env = Some 0
   \<and> agent_dones corridor_env = Some (replicate n_agents False)
   \<and> (99::nat) \<le> 99 \<and> 99 < length (replicate 100 [4, 4, 4, 4 :: int])
   \<and> fst (run corridor_env (replicate 100 [4, 4, 4, 4]) ! 99)
       = Return ([[1 / 2, 1 / 4, 1], [1, 1 / 4, 1], [1 / 2, 7 / 8, 1], [1, 7 / 8, 1]],
                 [0, 0, 0, 0], [True, True, True, True])"
proof -
  have h1: "step_count corridor_env = Some 0"
    and h2: "agent_dones corridor_env = Some (replicate n_agents False)"
    by (simp_all add: corridor_env_def n_agents_def numeral_eq_Suc)
  have h3: "(99::nat) \<le> 99" and h4: "99 < length (replicate 100 [4, 4, 4, 4 :: int])" by simp_all
  obtain os rs ds where r: "fst (run corridor_env (replicate 100 [4, 4, 4, 4]) ! 99) = Return (os, rs, ds)"
    and v: "os = [[1 / 2, 1 / 4, 1], [1, 1 / 4, 1], [1 / 2, 7 / 8, 1], [1, 7 / 8, 1]]" "rs = [0, 0, 0, 0]"
    using run100 by blast
  from truncation_after_max_steps[OF h1 h2 h3 h4 r] have "ds = [True, True, True, True]" .
  then show ?thesis using h1 h2 r v by simp
qed

section \<open>A step when every agent is done\<close>

lemma step_loop_all_done:
  assumes "agent_dones s = Some ds" "\<forall>j<length ds. ds ! j" "i + length as \<le> length ds"
  shows "step_loop i as rs s = (Return rs, s)"
  using assms(3)
proof (induction as arbitrary: i)
  case Nil
  then show ?case by simp
next
  case (Cons a as)
  then have "i < length ds" "ds ! i" using assms(2) by simp_all
  then have "step_agent i a rs s = (Return rs, s)" using assms(1) by (simp add: step_agent_done)
  moreover have "step_loop (i + 1) as rs s = (Return rs, s)" using Cons by simp
  ultimately show ?case by simp
qed

lemma dones_upd_same: "agent_dones t = d \<Longrightarrow> t\<lparr>agent_dones := d\<rparr> = t"
  by (cases t) simp

text \<open>
  C10. When all four done flags are true (and the counter and the four stored positions
  exist), \<open>step\<close> with any four action codes, valid or not, returns: the result
  state is the old one with the counter one higher, so positions and live grid are
  unchanged; every reward is the step cost and every done flag is true.
\<close>

theorem all_done_step_is_idle:
  assumes "step_count s = Some n" "agent_dones s = Some (replicate n_agents True)"
    and "\<forall>i<n_agents. agent_pos s i \<noteq> None" "length as = n_agents"
  shows "\<exists>os. step s as
           = (Return (os, replicate n_agents (step_cost s), replicate n_agents True),
              s\<lparr>step_count := Some (n + 1)\<rparr>)"
proof -
  let ?s1 = "s\<lparr>step_count := Some (n + 1)\<rparr>"
  have d1: "agent_dones ?s1 = Some (replicate n_agents True)" using assms(2) by simp
  have l: "step_loop 0 as (replicate n_agents (step_cost s)) ?s1
           = (Return (replicate n_agents (step_cost s)), ?s1)"
    by (rule step_loop_all_done[OF d1]) (simp_all add: assms(4))
  have t: "truncate_loop [0..<n_agents] ?s1 = (Return (), ?s1)"
    using truncate_all[OF d1] dones_upd_same[OF d1] by simp
  obtain os where o: "get_agent_obs ?s1 = Inr os"
    using get_agent_obs_total[of ?s1] assms(3) by (auto simp: all_agents_iff)
  show ?thesis
    using assms(1) l t o d1 by (auto simp: step_def Let_def)
qed

lemma truncated_pos: "\<forall>i<n_agents. agent_pos truncated_env i \<noteq> None"
  by (simp add: truncated_env_def corridor_env_def n_agents_def less_Suc_eq numeral_eq_Suc)

theorem all_done_step_is_idle_witness:
  "step_count truncated_env = Some 100
   \<and> agent_dones truncated_env = Some (replicate n_agents True)
   \<and> agent_pos truncated_env 0 \<noteq> None \<and> agent_pos truncated_env 1 \<noteq> None
   \<and> agent_pos truncated_env 2 \<noteq> None \<and> agent_pos truncated_env 3 \<noteq> None
   \<and> length [7, 4, 4, 4 :: int] = n_agents
   \<and> (\<exists>os. step truncated_env [7, 4, 4, 4]
           = (Return (os, replicate n_agents (step_cost truncated_env), replicate n_agents True),
              truncated_env\<lparr>step_count := Some (100 + 1)\<rparr>))"
proof -
  have h1: "step_count truncated_env = Some 100"
    and h2: "agent_dones truncated_env = Some (replicate n_agents True)"
    and h4: "length [7, 4, 4, 4 :: int] = n_agents"
    by (simp_all add: truncated_env_def corridor_env_def n_agents_def numeral_eq_Suc)
  show ?thesis
    using all_done_step_is_idle[OF h1 h2 truncated_pos h4] h1 h2 h4 truncated_pos
    by (simp add: n_agents_def)
qed

section \<open>Rewards\<close>

text \<open>What a returning call has done, agent by agent.\<close>

lemma step_char:
  assumes st: "step t a = (Return (os, rs, ds'), t')"
    and ds: "agent_dones t = Some ds" "length ds = n_agents"
  shows "agent_dones t' = Some ds'" "length ds' = n_agents" "step_cost t' = step_cost t"
    and "\<And>j. j < n_agents \<Longrightarrow>
          (if j < length a \<and> \<not> ds ! j
           then rs ! j = (if at_goal t' j then 5 else step_cost t) \<and> (at_goal t' j \<longrightarrow> ds' ! j)
           else rs ! j = step_cost t \<and> (ds ! j \<longrightarrow> ds' ! j) \<and> agent_pos t' j = agent_pos t j)"
proof -
  show d': "agent_dones t' = Some ds'" using step_returned_dones[OF st] .
  from step_dones_length[OF st ds(1)] show "length ds' = n_agents" using d' ds(2) by simp
  from step_cases[OF st] obtain n rs2 s2 where
    n: "step_count t = Some n"
    and l: "step_loop 0 a (replicate n_agents (step_cost t)) (t\<lparr>step_count := Some (n + 1)\<rparr>) = (Return rs2, s2)"
    and tr: "(if max_steps \<le> n + 1 then truncate_loop [0..<n_agents] s2 else (Return (), s2)) = (Return (), t')"
    and r: "Return (os, rs, ds') = (case get_agent_obs t' of Inl e \<Rightarrow> Raise e
                     | Inr os \<Rightarrow>
                         (case agent_dones t' of None \<Rightarrow> Raise AttributeError
                          | Some ds \<Rightarrow> Return (os, rs2, ds)))"
    by (elim disjE exE conjE) simp_all
  have rs2: "rs2 = rs" using r by (auto split: sum.splits option.splits)
  have "agent_dones (t\<lparr>step_count := Some (n + 1)\<rparr>) = Some ds" using ds(1) by simp
  from step_loop_char[OF l this] obtain d2 where d2:
    "agent_dones s2 = Some d2" "length d2 = length ds"
    "\<And>j. if 0 \<le> j \<and> j < 0 + length a \<and> \<not> ds ! j
         then d2 ! j = at_goal s2 j \<and> rs2 ! j = (if at_goal s2 j then 5 else replicate n_agents (step_cost t) ! j)
         else d2 ! j = ds ! j \<and> rs2 ! j = replicate n_agents (step_cost t) ! j
              \<and> agent_pos s2 j = agent_pos (t\<lparr>step_count := Some (n + 1)\<rparr>) j"
    by blast
  have fr: "agent_pos t' = agent_pos s2 \<and> step_cost t' = step_cost s2"
    using tr truncate_loop_frame[of "[0..<n_agents]" s2 "Return ()" t'] by (auto split: if_splits)
  have cost2: "step_cost s2 = step_cost t"
    using step_count_step[OF n, of a "Return (os, rs, ds')" t'] st fr by simp
  show "step_cost t' = step_cost t" using fr cost2 by simp
  have goal: "at_goal t' j = at_goal s2 j" for j using fr by (simp add: at_goal_def)
  have mono: "d2 ! j \<longrightarrow> ds' ! j" if "j < n_agents" for j
  proof (cases "max_steps \<le> n + 1")
    case True
    then have "truncate_loop [0..<n_agents] s2 = (Return (), t')" using tr by simp
    from truncate_loop_dones[OF this d2(1)] show ?thesis using d' by auto
  next
    case False
    then show ?thesis using tr d2(1) d' by auto
  qed
  fix j assume j: "j < n_agents"
  show "if j < length a \<and> \<not> ds ! j
        then rs ! j = (if at_goal t' j then 5 else step_cost t) \<and> (at_goal t' j \<longrightarrow> ds' ! j)
        else rs ! j = step_cost t \<and> (ds ! j \<longrightarrow> ds' ! j) \<and> agent_pos t' j = agent_pos t j"
    using d2(3)[of j] mono[OF j] j goal[of j] fr rs2 by (auto split: if_splits)
qed

lemma step_reward:
  assumes st: "step t a = (Return (os, rs, ds'), t')" and g: "goal_flagged t" and i: "i < n_agents"
  shows "goal_flagged t'" "step_cost t' = step_cost t"
    and "rs ! i = (if at_goal t' i \<and> \<not> at_goal t i then 5 else step_cost t)"
proof -
  from g obtain ds where ds: "agent_dones t = Some ds" "length ds = n_agents"
    "\<And>j. j < n_agents \<Longrightarrow> at_goal t j \<Longrightarrow> ds ! j"
    unfolding goal_flagged_def by blast
  note ch = step_char[OF st ds(1,2)]
  have "at_goal t' j \<longrightarrow> ds' ! j" if j: "j < n_agents" for j
    using ch(4)[OF j] ds(3)[OF j] by (auto simp: at_goal_def split: if_splits)
  then show "goal_flagged t'" using ch(1,2) unfolding goal_flagged_def by blast
  show "step_cost t' = step_cost t" using ch(3) .
  show "rs ! i = (if at_goal t' i \<and> \<not> at_goal t i then 5 else step_cost t)"
    using ch(4)[OF i] ds(3)[OF i] by (auto simp: at_goal_def split: if_splits)
qed


lemma returned_run:
  assumes g: "goal_flagged s" and k: "k \<le> length ass"
    and ret: "\<forall>j<k. \<exists>res. fst (run s ass ! j) = Return res"
  shows "goal_flagged (state_before s ass k) \<and> step_cost (state_before s ass k) = step_cost s"
  using k ret
proof (induction k)
  case 0
  then show ?case using g by simp
next
  case (Suc k)
  then have ih: "goal_flagged (state_before s ass k)"
    "step_cost (state_before s ass k) = step_cost s" and k: "k < length ass"
    by simp_all
  from Suc.prems(2) obtain os rs ds where "fst (run s ass ! k) = Return (os, rs, ds)"
    by (metis lessI prod_cases3)
  then have st: "step (state_before s ass k) (ass ! k) = (Return (os, rs, ds), state_before s ass (Suc k))"
    using state_before_Suc[OF k, of s] by simp
  from step_reward(1,2)[OF st ih(1), of 0] ih(2) show ?case by (simp add: n_agents_def)
qed

lemma at_goal_kept:
  assumes "goal_flagged (state_before s ass j)" "i < n_agents" "at_goal (state_before s ass j) i"
    and "j \<le> m" "m \<le> length ass"
  shows "at_goal (state_before s ass m) i"
proof -
  have "is_done (state_before s ass j) i"
    using assms(1,2,3) by (auto simp: goal_flagged_def is_done_def)
  from done_kept_run[OF this assms(4,5)]
  have "agent_pos (state_before s ass m) i = agent_pos (state_before s ass j) i" by simp
  then show ?thesis using assms(3) at_goal_cong by blast
qed

text \<open>From a state that satisfies the invariants, a call that raises keeps them too.\<close>

lemma goal_flagged_step_agent:
  assumes g: "wf_env s \<and> occ_inv s" and f: "goal_flagged s" and a: "step_agent i a rs s = (r, s')"
  shows "goal_flagged s'"
proof -
  from f obtain ds where ds: "agent_dones s = Some ds" "length ds = n_agents"
    "\<And>j. j < n_agents \<Longrightarrow> at_goal s j \<Longrightarrow> ds ! j"
    unfolding goal_flagged_def by blast
  have pos: "\<forall>j<n_agents. agent_pos s j \<noteq> None" using g unfolding wf_env_iff by blast
  show ?thesis
  proof (cases "i < n_agents \<and> \<not> ds ! i")
    case False
    then have "s' = s" using a ds by (auto simp: step_agent_def split: if_splits)
    then show ?thesis using f by simp
  next
    case True
    then have i: "i < n_agents" and nd: "\<not> ds ! i" by simp_all
    obtain r1 s2 where u: "update_agent_pos i a s = (r1, s2)" by (cases "update_agent_pos i a s")
    have o: "occ_inv s" using g by simp
    show ?thesis
    proof (cases "0 \<le> a \<and> a \<le> 4")
      case False
      from update_agent_pos_occ(3)[OF o i u False] have "r1 = Raise ActionNotFound" "s2 = s"
        by simp_all
      then have "s' = s" using a u ds i nd by (simp add: step_agent_def)
      then show ?thesis using f by simp
    next
      case True
      have r1: "r1 = Return ()" using update_agent_pos_occ(2)[OF o i u True] .
      have "agent_pos s2 i \<noteq> None" using frame_update_agent_pos(7)[OF u] pos i by simp
      then have d: "is_agent_done i s2 = Inr (at_goal s2 i)" using is_agent_done_total[OF i] by simp
      have s': "s' = s2\<lparr>agent_dones := Some (ds[i := at_goal s2 i])\<rparr>"
        using a u r1 d ds i nd by (auto simp: step_agent_def Let_def split: if_splits)
      have "(ds[i := at_goal s2 i]) ! j" if j: "j < n_agents" and at: "at_goal s2 j" for j
      proof (cases "j = i")
        case True
        then show ?thesis using at ds(2) i by simp
      next
        case False
        have "at_goal s j" using at at_goal_cong[OF frame_update_agent_pos(6)[OF u False]] by simp
        then show ?thesis using ds(3)[OF j] False by simp
      qed
      then show ?thesis using s' ds(2) unfolding goal_flagged_def by simp
    qed
  qed
qed

lemma goal_flagged_step:
  assumes "(wf_env s \<and> occ_inv s) \<and> goal_flagged s" "step s as = (r, s')"
  shows "(wf_env s' \<and> occ_inv s') \<and> goal_flagged s'"
proof (rule step_inv[where P = "\<lambda>t. (wf_env t \<and> occ_inv t) \<and> goal_flagged t", OF _ _ _ assms])
  show "(wf_env t' \<and> occ_inv t') \<and> goal_flagged t'"
    if "(wf_env t \<and> occ_inv t) \<and> goal_flagged t" "step_agent i a rs t = (q, t')"
    for i a rs t q t'
    using that good_step_agent goal_flagged_step_agent by blast
  show "(wf_env (t\<lparr>agent_dones := Some (ds[i := True])\<rparr>)
         \<and> occ_inv (t\<lparr>agent_dones := Some (ds[i := True])\<rparr>))
        \<and> goal_flagged (t\<lparr>agent_dones := Some (ds[i := True])\<rparr>)"
    if "(wf_env t \<and> occ_inv t) \<and> goal_flagged t" "agent_dones t = Some ds" "i < length ds"
    for t ds i
    using that by (auto simp: wf_env_iff goal_flagged_def nth_list_update)
  show "(wf_env (t\<lparr>step_count := Some (n + 1)\<rparr>) \<and> occ_inv (t\<lparr>step_count := Some (n + 1)\<rparr>))
        \<and> goal_flagged (t\<lparr>step_count := Some (n + 1)\<rparr>)"
    if "(wf_env t \<and> occ_inv t) \<and> goal_flagged t" "step_count t = Some n" for t n
    using that by (auto simp: wf_env_iff goal_flagged_def)
qed

lemma step_cost_step: "step s as = (r, s') \<Longrightarrow> step_cost s' = step_cost s"
  by (rule step_inv[where P = "\<lambda>t. step_cost t = step_cost s" and s = s and as = as and r = r])
    (auto dest: frame_step_agent(2))

lemma consistent_run:
  assumes "wf_env s \<and> occ_inv s" "goal_flagged s" "k \<le> length ass"
  shows "goal_flagged (state_before s ass k) \<and> step_cost (state_before s ass k) = step_cost s"
proof -
  let ?P = "\<lambda>t. ((wf_env t \<and> occ_inv t) \<and> goal_flagged t) \<and> step_cost t = step_cost s"
  have pres: "?P t'" if "?P t" "step t a = (r, t')" for t a r t'
    using goal_flagged_step[OF _ that(2)] step_cost_step[OF that(2)] that(1) by simp
  have "?P (state_before s ass k)"
    by (rule run_inv[where P = ?P, OF pres _ assms(3)]) (use assms(1,2) in simp_all)
  then show ?thesis by simp
qed

text \<open>
  C4. In an episode that starts with four false done flags and no agent on its goal,
  every call of \<open>step\<close> that returns gives agent \<open>i\<close> the reward 5 if the agent's
  position after this call equals its goal and did not after any earlier call, and the
  step cost otherwise, so also on every call after the agent is done. The earlier calls
  of the episode have all returned, or the episode starts in a state that satisfies the
  invariants and earlier calls may have raised.
\<close>

theorem reward_on_first_arrival:
  assumes "agent_dones s = Some (replicate n_agents False)"
    and "\<forall>i<n_agents. \<not> at_goal s i"
    and "k < length ass" "i < n_agents"
    and "(wf_env s \<and> occ_inv s) \<or> (\<forall>j<k. \<exists>res. fst (run s ass ! j) = Return res)"
    and "fst (run s ass ! k) = Return (os, rs, ds)"
  shows "rs ! i = (if at_goal (snd (run s ass ! k)) i
                      \<and> (\<forall>j<k. \<not> at_goal (snd (run s ass ! j)) i)
                   then 5 else step_cost s)"
proof -
  have g: "goal_flagged s" using assms(1,2) by (simp add: goal_flagged_def)
  have gf: "goal_flagged (state_before s ass j) \<and> step_cost (state_before s ass j) = step_cost s"
    if "j \<le> k" for j
    using assms(5)
  proof
    assume "wf_env s \<and> occ_inv s"
    then show ?thesis using consistent_run[OF _ g, of j ass] that assms(3) by simp
  next
    assume "\<forall>j<k. \<exists>res. fst (run s ass ! j) = Return res"
    then show ?thesis using returned_run[OF g, of j ass] that assms(3) by simp
  qed
  have gk: "goal_flagged (state_before s ass k)" "step_cost (state_before s ass k) = step_cost s"
    using gf[of k] by simp_all
  have st: "step (state_before s ass k) (ass ! k) = (Return (os, rs, ds), state_before s ass (Suc k))"
    using state_before_Suc[OF assms(3), of s] assms(6) by simp
  have r: "rs ! i = (if at_goal (state_before s ass (Suc k)) i \<and> \<not> at_goal (state_before s ass k) i
                     then 5 else step_cost s)"
    using step_reward(3)[OF st gk(1) assms(4)] gk(2) by simp
  have "\<not> at_goal (state_before s ass k) i \<longleftrightarrow> (\<forall>j<k. \<not> at_goal (state_before s ass (Suc j)) i)"
  proof
    assume n: "\<not> at_goal (state_before s ass k) i"
    show "\<forall>j<k. \<not> at_goal (state_before s ass (Suc j)) i"
    proof (intro allI impI notI)
      fix j assume j: "j < k" and a: "at_goal (state_before s ass (Suc j)) i"
      have "goal_flagged (state_before s ass (Suc j))" using gf[of "Suc j"] j by simp
      from at_goal_kept[OF this assms(4) a, of k] show False using n j assms(3) by simp
    qed
  next
    assume a: "\<forall>j<k. \<not> at_goal (state_before s ass (Suc j)) i"
    show "\<not> at_goal (state_before s ass k) i"
    proof (cases k)
      case 0
      then show ?thesis using assms(2,4) by simp
    next
      case (Suc m)
      then show ?thesis using a by simp
    qed
  qed
  then show ?thesis using r by (simp del: state_before.simps add: snd_run_nth)
qed

lemma crossed_wf: "wf_env crossed_env"
  by code_simp

lemma crossed_occ: "occ_inv crossed_env"
  by code_simp

lemma crossed_flags: "agent_dones crossed_env = Some (replicate n_agents False)"
  by (simp add: crossed_env_def n_agents_def numeral_eq_Suc)

lemma crossed_not_at_goal: "\<forall>i<n_agents. \<not> at_goal crossed_env i"
  by (simp add: crossed_env_def at_goal_def final_agent_pos_def grid_shape_def n_agents_def
      less_Suc_eq numeral_eq_Suc)

lemma crossed_rewards:
  "fst (run crossed_env [[4, 4, 4, 4], [3, 4, 1, 4], [1, 4, 3, 4]] ! 0)
   = Return ([[1 / 2, 7 / 8, 13 / 100], [1, 1 / 4, 13 / 100], [1 / 2, 1 / 4, 13 / 100],
              [1, 7 / 8, 13 / 100]], [0, 0, 0, 0], [False, False, False, False])"
  "fst (run crossed_env [[4, 4, 4, 4], [3, 4, 1, 4], [1, 4, 3, 4]] ! 1)
   = Return ([[1 / 2, 1, 7 / 50], [1, 1 / 4, 7 / 50], [1 / 2, 1 / 8, 7 / 50],
              [1, 7 / 8, 7 / 50]], [5, 0, 5, 0], [True, False, True, False])"
  "at_goal (snd (run crossed_env [[4, 4, 4, 4], [3, 4, 1, 4], [1, 4, 3, 4]] ! 1)) 0"
  "\<not> at_goal (snd (run crossed_env [[4, 4, 4, 4], [3, 4, 1, 4], [1, 4, 3, 4]] ! 0)) 0"
  by code_simp+

text \<open>
  A run for C4: agents 0 and 2 walk onto their goals in the second call, where each
  gets 5; the first call gives the step cost.
\<close>

theorem reward_on_first_arrival_witness:
  "agent_dones crossed_env = Some (replicate n_agents False)
   \<and> \<not> at_goal crossed_env 0 \<and> \<not> at_goal crossed_env 1
   \<and> \<not> at_goal crossed_env 2 \<and> \<not> at_goal crossed_env 3
   \<and> (1::nat) < length [[4, 4, 4, 4], [3, 4, 1, 4], [1, 4, 3, 4 :: int]] \<and> 0 < n_agents
   \<and> wf_env crossed_env \<and> occ_inv crossed_env
   \<and> fst (run crossed_env [[4, 4, 4, 4], [3, 4, 1, 4], [1, 4, 3, 4]] ! 0)
       = Return ([[1 / 2, 7 / 8, 13 / 100], [1, 1 / 4, 13 / 100], [1 / 2, 1 / 4, 13 / 100],
                  [1, 7 / 8, 13 / 100]], [0, 0, 0, 0], [False, False, False, False])
   \<and> fst (run crossed_env [[4, 4, 4, 4], [3, 4, 1, 4], [1, 4, 3, 4]] ! 1)
       = Return ([[1 / 2, 1, 7 / 50], [1, 1 / 4, 7 / 50], [1 / 2, 1 / 8, 7 / 50],
                  [1, 7 / 8, 7 / 50]], [5, 0, 5, 0], [True, False, True, False])
   \<and> at_goal (snd (run crossed_env [[4, 4, 4, 4], [3, 4, 1, 4], [1, 4, 3, 4]] ! 1)) 0
   \<and> \<not> at_goal (snd (run crossed_env [[4, 4, 4, 4], [3, 4, 1, 4], [1, 4, 3, 4]] ! 0)) 0
   \<and> [5, 0, 5, 0] ! 0 = (5::int)"
proof -
  let ?ass = "[[4, 4, 4, 4], [3, 4, 1, 4], [1, 4, 3, 4 :: int]]"
  have h3: "(1::nat) < length ?ass" and h4: "0 < n_agents" by (simp_all add: n_agents_def)
  have h5: "(wf_env crossed_env \<and> occ_inv crossed_env)
            \<or> (\<forall>j<1. \<exists>res. fst (run crossed_env ?ass ! j) = Return res)"
    using crossed_wf crossed_occ by simp
  from reward_on_first_arrival[OF crossed_flags crossed_not_at_goal h3 h4 h5 crossed_rewards(2)]
  have "[5, 0, 5, 0] ! 0 = (if at_goal (snd (run crossed_env ?ass ! 1)) 0
                              \<and> (\<forall>j<1. \<not> at_goal (snd (run crossed_env ?ass ! j)) 0)
                            then 5 else step_cost crossed_env)" .
  then have "[5, 0, 5, 0] ! 0 = (5::int)" using crossed_rewards(3,4) by simp
  then show ?thesis
    using crossed_flags crossed_not_at_goal h3 h4 crossed_rewards crossed_wf crossed_occ
    by (simp add: n_agents_def)
qed

section \<open>Invalid action codes\<close>

lemma step_agent_invalid:
  assumes "agent_dones s = Some ds" "i < length ds" "\<not> ds ! i" "\<not> (0 \<le> a \<and> a \<le> 4)"
  shows "\<exists>e. step_agent i a rs s = (Raise e, s)"
proof -
  obtain r1 s1 where u: "update_agent_pos i a s = (r1, s1)" by (cases "update_agent_pos i a s")
  from update_agent_pos_raise_invalid[OF u assms(4)] obtain e where "s1 = s" "r1 = Raise e" by blast
  then show ?thesis using assms(1,2,3) u by (simp add: step_agent_def)
qed

lemma step_loop_invalid:
  assumes "step_loop i0 as rs s = (r, s')" "agent_dones s = Some ds"
    and "i0 \<le> i" "i < i0 + length as" "i < length ds" "\<not> ds ! i"
    and "\<not> (0 \<le> as ! (i - i0) \<and> as ! (i - i0) \<le> 4)"
  shows "(\<exists>e. r = Raise e) \<and> agent_pos s' i = agent_pos s i"
  using assms
proof (induction as arbitrary: i0 rs s ds)
  case Nil
  then show ?case by simp
next
  case (Cons a as)
  show ?case
  proof (cases "i = i0")
    case True
    then have "\<not> (0 \<le> a \<and> a \<le> 4)" using Cons.prems(7) by simp
    from step_agent_invalid[OF Cons.prems(2) _ _ this, of i0 rs] obtain e where
      "step_agent i0 a rs s = (Raise e, s)" using Cons.prems(5,6) True by blast
    then show ?thesis using Cons.prems(1) by auto
  next
    case False
    then have gt: "i0 + 1 \<le> i" using Cons.prems(3) by simp
    obtain r1 s1 where a: "step_agent i0 a rs s = (r1, s1)" by (cases "step_agent i0 a rs s")
    have p1: "agent_pos s1 i = agent_pos s i" using frame_step_agent(5)[OF a False] .
    from step_agent_dones[OF a Cons.prems(2)] obtain ds1 where ds1:
      "agent_dones s1 = Some ds1" "length ds1 = length ds" "\<forall>j. j \<noteq> i0 \<longrightarrow> ds1 ! j = ds ! j"
      by blast
    show ?thesis
    proof (cases r1)
      case (Raise e)
      then show ?thesis using Cons.prems(1) a p1 by auto
    next
      case (Return rs1)
      then have l: "step_loop (i0 + 1) as rs1 s1 = (r, s')" using Cons.prems(1) a by simp
      have "i - i0 = Suc (i - (i0 + 1))" using gt by simp
      then have idx: "(a # as) ! (i - i0) = as ! (i - (i0 + 1))" by simp
      have "(\<exists>e. r = Raise e) \<and> agent_pos s' i = agent_pos s1 i"
        using Cons.IH[OF l ds1(1) gt] Cons.prems(4,5,6,7) ds1(2,3) False idx by simp
      then show ?thesis using p1 by simp
    qed
  qed
qed

text \<open>With the invariants, a turn returns or raises the error of the unknown action.\<close>

lemma step_agent_good:
  assumes g: "wf_env s \<and> occ_inv s" and j: "j < n_agents" and len: "length rs = n_agents"
    and a: "step_agent j a rs s = (r, s1)"
  shows "(is_done s j \<or> (0 \<le> a \<and> a \<le> 4) \<longrightarrow> (\<exists>rs1. r = Return rs1 \<and> length rs1 = n_agents))
       \<and> (\<not> is_done s j \<and> \<not> (0 \<le> a \<and> a \<le> 4) \<longrightarrow> r = Raise ActionNotFound \<and> s1 = s)"
proof -
  from g obtain ds where ds: "agent_dones s = Some ds" "length ds = n_agents"
    and pos: "\<forall>i<n_agents. agent_pos s i \<noteq> None" unfolding wf_env_iff by blast
  show ?thesis
  proof (cases "ds ! j")
    case True
    then show ?thesis
      using a ds j len step_agent_done[OF ds(1), of j a rs] by (auto simp: is_done_def)
  next
    case False
    then have nd: "\<not> is_done s j" using ds by (simp add: is_done_def)
    obtain r1 s2 where u: "update_agent_pos j a s = (r1, s2)" by (cases "update_agent_pos j a s")
    have o: "occ_inv s" using g by simp
    show ?thesis
    proof (cases "0 \<le> a \<and> a \<le> 4")
      case True
      have r1: "r1 = Return ()" using update_agent_pos_occ(2)[OF o j u True] .
      have "agent_pos s2 j \<noteq> None" using frame_update_agent_pos(7)[OF u] pos j by simp
      then have d: "is_agent_done j s2 = Inr (at_goal s2 j)" using is_agent_done_total[OF j] by simp
      show ?thesis
        using a u r1 d ds j len False True
        by (auto simp: step_agent_def Let_def split: if_splits)
    next
      case inv: False
      from update_agent_pos_occ(3)[OF o j u inv] have "r1 = Raise ActionNotFound" "s2 = s" by simp_all
      then show ?thesis using a u ds j False inv nd by (auto simp: step_agent_def)
    qed
  qed
qed

lemma step_loop_invalid_good:
  assumes "step_loop i0 as rs s = (r, s')" "wf_env s \<and> occ_inv s" "length rs = n_agents"
    and "i0 \<le> i" "i < i0 + length as" "i < n_agents" "\<not> is_done s i"
    and "\<not> (0 \<le> as ! (i - i0) \<and> as ! (i - i0) \<le> 4)"
  shows "r = Raise ActionNotFound"
  using assms
proof (induction as arbitrary: i0 rs s)
  case Nil
  then show ?case by simp
next
  case (Cons a as)
  obtain r1 s1 where a: "step_agent i0 a rs s = (r1, s1)" by (cases "step_agent i0 a rs s")
  have i0: "i0 < n_agents" using Cons.prems(4,6) by simp
  note sg = step_agent_good[OF Cons.prems(2) i0 Cons.prems(3) a]
  show ?case
  proof (cases "i = i0")
    case True
    then have "\<not> (0 \<le> a \<and> a \<le> 4)" using Cons.prems(8) by simp
    then have "r1 = Raise ActionNotFound" using sg Cons.prems(7) True by simp
    then show ?thesis using Cons.prems(1) a by simp
  next
    case False
    then have gt: "i0 + 1 \<le> i" using Cons.prems(4) by simp
    show ?thesis
    proof (cases r1)
      case (Raise e)
      then have "e = ActionNotFound" using sg by auto
      then show ?thesis using Cons.prems(1) a Raise by simp
    next
      case (Return rs1)
      then have l: "step_loop (i0 + 1) as rs1 s1 = (r, s')" using Cons.prems(1) a by simp
      have len1: "length rs1 = n_agents" using sg Return by auto
      have g1: "wf_env s1 \<and> occ_inv s1" using good_step_agent[OF Cons.prems(2) a] .
      obtain ds where ds: "agent_dones s = Some ds" using Cons.prems(2) unfolding wf_env_iff by blast
      from step_agent_dones[OF a ds] obtain ds1 where ds1:
        "agent_dones s1 = Some ds1" "length ds1 = length ds" "\<forall>j. j \<noteq> i0 \<longrightarrow> ds1 ! j = ds ! j"
        by blast
      have nd: "\<not> is_done s1 i" using Cons.prems(7) ds ds1 False by (simp add: is_done_def)
      have "i - i0 = Suc (i - (i0 + 1))" using gt by simp
      then have idx: "(a # as) ! (i - i0) = as ! (i - (i0 + 1))" by simp
      show ?thesis
        using Cons.IH[OF l g1 len1 gt _ Cons.prems(6) nd] Cons.prems(5,8) idx by simp
    qed
  qed
qed

text \<open>
  C7, as amended. If an agent whose done flag is false is given an action code outside
  0..4, \<open>step\<close> raises and that agent's stored position is unchanged; when the state
  satisfies the invariants the error is the one of \<open>__update_agent_pos\<close>,
  "Action Not found!". (For an agent whose flag is true the code is never looked at.)
\<close>

theorem invalid_action_raises:
  assumes "agent_dones s = Some ds" "i < length ds" "\<not> ds ! i"
    and "i < length as" "\<not> (0 \<le> as ! i \<and> as ! i \<le> 4)"
  shows "\<exists>e s'. step s as = (Raise e, s') \<and> agent_pos s' i = agent_pos s i
           \<and> (wf_env s \<and> occ_inv s \<longrightarrow> e = ActionNotFound)"
proof -
  obtain r s' where st: "step s as = (r, s')" by (cases "step s as")
  have loop: "(\<exists>e. q = Raise e) \<and> agent_pos t' i = agent_pos s i
              \<and> (wf_env s \<and> occ_inv s \<longrightarrow> q = Raise ActionNotFound)"
    if l: "step_loop 0 as (replicate n_agents (step_cost s)) (s\<lparr>step_count := Some (n + 1)\<rparr>) = (q, t')"
      and n: "step_count s = Some n" for q t' n
  proof -
    let ?s1 = "s\<lparr>step_count := Some (n + 1)\<rparr>"
    have d1: "agent_dones ?s1 = Some ds" using assms(1) by simp
    have 1: "(\<exists>e. q = Raise e) \<and> agent_pos t' i = agent_pos ?s1 i"
      using step_loop_invalid[OF l d1, of i] assms(2,3,4,5) by simp
    have "q = Raise ActionNotFound" if g: "wf_env s \<and> occ_inv s"
    proof -
      have g1: "wf_env ?s1 \<and> occ_inv ?s1" using g by (auto simp: wf_env_iff)
      have i4: "i < n_agents" using g assms(1,2) by (auto simp: wf_env_iff)
      have nd: "\<not> is_done ?s1 i" using assms(1,3) by (simp add: is_done_def)
      show ?thesis
        using step_loop_invalid_good[OF l g1 _ _ _ i4 nd] assms(4,5) by simp
    qed
    then show ?thesis using 1 by simp
  qed
  from step_cases[OF st]
  have "(\<exists>e. r = Raise e) \<and> agent_pos s' i = agent_pos s i
        \<and> (wf_env s \<and> occ_inv s \<longrightarrow> r = Raise ActionNotFound)"
  proof (elim disjE exE conjE)
    assume "step_count s = None" "r = Raise TypeError" "s' = s"
    then show ?thesis by (auto simp: wf_env_iff)
  next
    fix n e
    assume "step_count s = Some n" "r = Raise e"
      "step_loop 0 as (replicate n_agents (step_cost s)) (s\<lparr>step_count := Some (n + 1)\<rparr>) = (Raise e, s')"
    then show ?thesis using loop by blast
  next
    fix n rs s2 e
    assume "step_count s = Some n"
      "step_loop 0 as (replicate n_agents (step_cost s)) (s\<lparr>step_count := Some (n + 1)\<rparr>) = (Return rs, s2)"
    then show ?thesis using loop by blast
  next
    fix n rs s2
    assume "step_count s = Some n"
      "step_loop 0 as (replicate n_agents (step_cost s)) (s\<lparr>step_count := Some (n + 1)\<rparr>) = (Return rs, s2)"
    then show ?thesis using loop by blast
  qed
  then show ?thesis using st by auto
qed

text \<open>
  C7 as stated fails for an agent that is done: agent 0 reaches its goal in the first
  call; in the second it is given the code 7 and \<open>step\<close> returns.
\<close>

theorem invalid_action_for_done_agent_ignored:
  "fst (run crossed_env [[3, 4, 4, 4], [7, 4, 4, 4]] ! 0)
   = Return ([[1 / 2, 1, 13 / 100], [1, 1 / 4, 13 / 100], [1 / 2, 1 / 4, 13 / 100],
              [1, 7 / 8, 13 / 100]], [5, 0, 0, 0], [True, False, False, False])
   \<and> fst (run crossed_env [[3, 4, 4, 4], [7, 4, 4, 4]] ! 1)
   = Return ([[1 / 2, 1, 7 / 50], [1, 1 / 4, 7 / 50], [1 / 2, 1 / 4, 7 / 50],
              [1, 7 / 8, 7 / 50]], [0, 0, 0, 0], [True, False, False, False])"
  by code_simp

text \<open>A state and an action list for the amended C7: agent 1, not done, is given 9.\<close>

theorem invalid_action_raises_witness:
  "agent_dones corridor_env = Some [False, False, False, False]
   \<and> (1::nat) < length [False, False, False, False] \<and> \<not> [False, False, False, False] ! 1
   \<and> 1 < length [4, 9, 4, 4 :: int] \<and> \<not> (0 \<le> [4, 9, 4, 4 :: int] ! 1 \<and> [4, 9, 4, 4 :: int] ! 1 \<le> 4)
   \<and> wf_env corridor_env \<and> occ_inv corridor_env
   \<and> fst (step corridor_env [4, 9, 4, 4]) = Raise ActionNotFound
   \<and> agent_pos (snd (step corridor_env [4, 9, 4, 4])) 1 = agent_pos corridor_env 1"
proof -
  have h1: "agent_dones corridor_env = Some [False, False, False, False]"
    by (simp add: corridor_env_def)
  have h2: "(1::nat) < length [False, False, False, False]"
    and h3: "\<not> [False, False, False, False] ! 1"
    and h4: "1 < length [4, 9, 4, 4 :: int]"
    and h5: "\<not> (0 \<le> [4, 9, 4, 4 :: int] ! 1 \<and> [4, 9, 4, 4 :: int] ! 1 \<le> 4)" by simp_all
  from invalid_action_raises[OF h1 h2 h3 h4 h5] obtain e s' where
    "step corridor_env [4, 9, 4, 4] = (Raise e, s')" "agent_pos s' 1 = agent_pos corridor_env 1"
    "wf_env corridor_env \<and> occ_inv corridor_env \<longrightarrow> e = ActionNotFound" by blast
  then show ?thesis using h1 h2 h3 h4 h5 corridor_wf corridor_occ by simp
qed

section \<open>The length of the action list\<close>





section \<open>The wall to the right of agent 0\<close>

lemma wall_at_0_2: "grid_get create_grid (0, 2) = Inr (- 1)"
  by (simp add: create_grid_eq grid_get_def np_index_def)

lemma step_agent_noop:
  assumes "agent_dones t = Some ds" "j < length ds" "j < n_agents" "agent_pos t j \<noteq> None"
    and "length rs = n_agents"
  shows "\<exists>rs' ds'. step_agent j 4 rs t = (Return rs', t\<lparr>agent_dones := Some ds'\<rparr>)
           \<and> length rs' = n_agents \<and> length ds' = length ds
           \<and> (\<forall>m. m \<noteq> j \<longrightarrow> ds' ! m = ds ! m \<and> rs' ! m = rs ! m)"
proof (cases "ds ! j")
  case True
  then have "step_agent j 4 rs t = (Return rs, t\<lparr>agent_dones := Some ds\<rparr>)"
    using assms(1,2) dones_upd_same[OF assms(1)] by (simp add: step_agent_done)
  then show ?thesis using assms(5) by auto
next
  case False
  from assms(4) obtain c where c: "agent_pos t j = Some c" by auto
  have u: "update_agent_pos j 4 t = (Return (), t)" using update_agent_pos_noop[OF c] .
  have d: "is_agent_done j t = Inr (at_goal t j)" using is_agent_done_total[OF assms(3,4)] .
  show ?thesis
    using assms(1,2,3,5) False u d by (auto simp: step_agent_def Let_def)
qed

lemma noop_loop:
  assumes "agent_dones t = Some ds" "length ds = n_agents" "length rs = n_agents"
    and "\<forall>j<n_agents. agent_pos t j \<noteq> None" "i + length as \<le> n_agents" "\<forall>a\<in>set as. a = 4"
  shows "\<exists>rs' ds'. step_loop i as rs t = (Return rs', t\<lparr>agent_dones := Some ds'\<rparr>)
           \<and> length rs' = n_agents \<and> length ds' = n_agents
           \<and> (\<forall>m<i. ds' ! m = ds ! m \<and> rs' ! m = rs ! m)"
  using assms
proof (induction as arbitrary: i rs t ds)
  case Nil
  have "t = t\<lparr>agent_dones := Some ds\<rparr>" using dones_upd_same[OF Nil.prems(1)] by simp
  then have "step_loop i [] rs t = (Return rs, t\<lparr>agent_dones := Some ds\<rparr>)" by simp
  then show ?case using Nil.prems(2,3) by blast
next
  case (Cons a as)
  have i: "i < n_agents" and a: "a = 4" using Cons.prems(5,6) by simp_all
  from step_agent_noop[OF Cons.prems(1) _ i _ Cons.prems(3)] Cons.prems(2,4) i
  obtain rs1 ds1 where 1: "step_agent i 4 rs t = (Return rs1, t\<lparr>agent_dones := Some ds1\<rparr>)"
    "length rs1 = n_agents" "length ds1 = length ds"
    "\<forall>m. m \<noteq> i \<longrightarrow> ds1 ! m = ds ! m \<and> rs1 ! m = rs ! m"
    by auto
  let ?t1 = "t\<lparr>agent_dones := Some ds1\<rparr>"
  have "\<exists>rs' ds'. step_loop (i + 1) as rs1 ?t1 = (Return rs', ?t1\<lparr>agent_dones := Some ds'\<rparr>)
           \<and> length rs' = n_agents \<and> length ds' = n_agents
           \<and> (\<forall>m<i + 1. ds' ! m = ds1 ! m \<and> rs' ! m = rs1 ! m)"
    by (rule Cons.IH) (use Cons.prems 1 in auto)
  then obtain rs' ds' where 2:
    "step_loop (i + 1) as rs1 ?t1 = (Return rs', t\<lparr>agent_dones := Some ds'\<rparr>)"
    "length rs' = n_agents" "length ds' = n_agents"
    "\<forall>m<i + 1. ds' ! m = ds1 ! m \<and> rs' ! m = rs1 ! m"
    by auto
  have "\<forall>m<i. ds' ! m = ds ! m \<and> rs' ! m = rs ! m" using 1(4) 2(4) by auto
  then show ?case using 1(1) 2(1,2,3) a by auto
qed

lemma step_agent_blocked_right:
  assumes "agent_dones t = Some ds" "0 < length ds" "\<not> ds ! 0"
    and "agent_pos t 0 = Some (0, 1)" "grid_get (full_obs t) (0, 2) = Inr (- 1)"
  shows "step_agent 0 3 rs t = (Return rs, t)"
proof -
  have n: "next_pos_of (0, 1) 3 = Inr (Some (0, 2))" by (simp add: next_pos_of_def)
  have v: "is_cell_vacant t (0, 2) = Inr False"
    using assms(5) by (simp add: is_cell_vacant_def grid_shape_def)
  have u: "update_agent_pos 0 3 t = (Return (), t)"
    using update_agent_pos_blocked[OF assms(4) n v] .
  have d: "is_agent_done 0 t = Inr False"
    using assms(4) by (simp add: is_agent_done_def final_agent_pos_def grid_shape_def)
  have "ds[0 := False] = ds" using assms(2,3) by (simp add: list_update_same_conv)
  then show ?thesis
    using assms(1,2,3) u d dones_upd_same[OF assms(1)] by (simp add: step_agent_def)
qed

lemma wall_step:
  assumes f: "facing_wall t n" and n: "n + 1 < max_steps"
  shows "\<exists>os rs ds' t'. step t [3, 4, 4, 4] = (Return (os, rs, ds'), t')
           \<and> rs ! 0 = step_cost t \<and> \<not> ds' ! 0 \<and> facing_wall t' (n + 1)
           \<and> step_cost t' = step_cost t"
proof -
  from f obtain ds where c: "step_count t = Some n"
    and ds: "agent_dones t = Some ds" "length ds = n_agents" "\<not> ds ! 0"
    and pos: "\<forall>j<n_agents. agent_pos t j \<noteq> None" "agent_pos t 0 = Some (0, 1)"
    and wall: "grid_get (full_obs t) (0, 2) = Inr (- 1)"
    unfolding facing_wall_def by blast
  let ?t1 = "t\<lparr>step_count := Some (n + 1)\<rparr>"
  let ?rs = "replicate n_agents (step_cost t)"
  have 0: "step_agent 0 3 ?rs ?t1 = (Return ?rs, ?t1)"
    by (rule step_agent_blocked_right[where ds = ds]) (use ds pos wall in \<open>simp_all add: n_agents_def\<close>)
  have "\<exists>rs' ds'. step_loop 1 [4, 4, 4] ?rs ?t1 = (Return rs', ?t1\<lparr>agent_dones := Some ds'\<rparr>)
           \<and> length rs' = n_agents \<and> length ds' = n_agents
           \<and> (\<forall>m<1. ds' ! m = ds ! m \<and> rs' ! m = ?rs ! m)"
    by (rule noop_loop) (use ds pos in \<open>simp_all add: n_agents_def\<close>)
  then obtain rs' ds' where 1:
    "step_loop 1 [4, 4, 4] ?rs ?t1 = (Return rs', ?t1\<lparr>agent_dones := Some ds'\<rparr>)"
    "length rs' = n_agents" "length ds' = n_agents" "ds' ! 0 = ds ! 0" "rs' ! 0 = ?rs ! 0"
    by auto
  let ?t2 = "?t1\<lparr>agent_dones := Some ds'\<rparr>"
  have l: "step_loop 0 [3, 4, 4, 4] ?rs ?t1 = (Return rs', ?t2)" using 0 1(1) by simp
  obtain os where o: "get_agent_obs ?t2 = Inr os"
    using get_agent_obs_total[of ?t2] pos(1) by (auto simp: all_agents_iff)
  have st: "step t [3, 4, 4, 4] = (Return (os, rs', ds'), ?t2)"
    using c l o n by (simp add: step_def Let_def)
  have "rs' ! 0 = step_cost t" using 1(5) by (simp add: n_agents_def)
  moreover have "facing_wall ?t2 (n + 1)"
    using 1(3,4) ds(3) pos wall by (simp add: facing_wall_def)
  ultimately show ?thesis using st 1(4) ds(3) by auto
qed

lemma wall_run:
  assumes f: "facing_wall s n" and m: "n + int m < max_steps" and k: "k \<le> m"
  shows "facing_wall (state_before s (replicate m [3, 4, 4, 4]) k) (n + int k)
         \<and> step_cost (state_before s (replicate m [3, 4, 4, 4]) k) = step_cost s"
  using k
proof (induction k)
  case 0
  then show ?case using f by simp
next
  case (Suc k)
  let ?ass = "replicate m [3, 4, 4, 4 :: int]"
  have ih: "facing_wall (state_before s ?ass k) (n + int k)"
    "step_cost (state_before s ?ass k) = step_cost s" and k: "k < m"
    using Suc by simp_all
  have "n + int k + 1 < max_steps" using m k by simp
  from wall_step[OF ih(1) this] obtain os rs ds' t' where
    1: "step (state_before s ?ass k) [3, 4, 4, 4] = (Return (os, rs, ds'), t')"
    "facing_wall t' (n + int k + 1)" "step_cost t' = step_cost (state_before s ?ass k)"
    by blast
  have "step (state_before s ?ass k) (?ass ! k) = (fst (run s ?ass ! k), state_before s ?ass (Suc k))"
    by (rule state_before_Suc) (use k in simp)
  then have "t' = state_before s ?ass (Suc k)" using 1(1) k by (simp del: state_before.simps)
  moreover have "facing_wall t' (n + int (Suc k))" using 1(2) by (simp add: algebra_simps)
  ultimately show ?case using 1(3) ih(2) by (simp del: state_before.simps of_nat_Suc)
qed

text \<open>
  C2, as amended. At the start of an episode (counter 0, no agent done) with agent 0
  stored at (0, 1) and the cell (0, 2) of the live grid as \<open>__create_grid\<close> makes it,
  a wall, each of six calls of \<open>step\<close> with RIGHT for agent 0 and NOOP for the others
  returns, gives agent 0 the step cost as reward and a false done flag, and leaves agent
  0 at (0, 1).
\<close>

theorem agent_0_blocked_by_wall:
  assumes "step_count s = Some 0" "agent_dones s = Some (replicate n_agents False)"
    and "\<forall>j<n_agents. agent_pos s j \<noteq> None" "agent_pos s 0 = Some (0, 1)"
    and "grid_get (full_obs s) (0, 2) = grid_get create_grid (0, 2)"
    and "k < 6"
  shows "(\<exists>os rs ds. fst (run s (replicate 6 [3, 4, 4, 4]) ! k) = Return (os, rs, ds)
            \<and> rs ! 0 = step_cost s \<and> \<not> ds ! 0)
         \<and> agent_pos (snd (run s (replicate 6 [3, 4, 4, 4]) ! k)) 0 = Some (0, 1)"
proof -
  let ?ass = "replicate 6 [3, 4, 4, 4 :: int]"
  have f: "facing_wall s 0"
    using assms(1-5) by (simp add: facing_wall_def wall_at_0_2 n_agents_def)
  have fk: "facing_wall (state_before s ?ass k) (0 + int k)"
    "step_cost (state_before s ?ass k) = step_cost s"
    using wall_run[OF f, of 6 k] assms(6) by (simp_all add: max_steps_def)
  have "0 + int k + 1 < max_steps" using assms(6) by (simp add: max_steps_def)
  from wall_step[OF fk(1) this] obtain os rs ds' t' where
    1: "step (state_before s ?ass k) [3, 4, 4, 4] = (Return (os, rs, ds'), t')"
    "rs ! 0 = step_cost (state_before s ?ass k)" "\<not> ds' ! 0" "facing_wall t' (0 + int k + 1)"
    by blast
  have "run s ?ass ! k = step (state_before s ?ass k) (?ass ! k)"
    by (rule run_nth) (use assms(6) in simp)
  then have r: "run s ?ass ! k = (Return (os, rs, ds'), t')" using 1(1) assms(6) by simp
  have "agent_pos t' 0 = Some (0, 1)" using 1(4) by (simp add: facing_wall_def)
  then show ?thesis using r 1(2,3) fk(2) by auto
qed

lemma corridor_start:
  "step_count corridor_env = Some 0"
  "agent_dones corridor_env = Some (replicate n_agents False)"
  "\<forall>j<n_agents. agent_pos corridor_env j \<noteq> None"
  "agent_pos corridor_env 0 = Some (0, 1)"
  "grid_get (full_obs corridor_env) (0, 2) = grid_get create_grid (0, 2)"
  by (simp_all add: corridor_env_def n_agents_def numeral_eq_Suc less_Suc_eq
      create_grid_eq grid_get_def np_index_def)

text \<open>The sixth call from the sample start state, for the amended C2.\<close>

theorem agent_0_blocked_by_wall_witness:
  "step_count corridor_env = Some 0
   \<and> agent_dones corridor_env = Some (replicate n_agents False)
   \<and> agent_pos corridor_env 0 = Some (0, 1)
   \<and> agent_pos corridor_env 1 \<noteq> None \<and> agent_pos corridor_env 2 \<noteq> None
   \<and> agent_pos corridor_env 3 \<noteq> None
   \<and> grid_get (full_obs corridor_env) (0, 2) = grid_get create_grid (0, 2)
   \<and> (5::nat) < 6
   \<and> (\<exists>os rs ds. fst (run corridor_env (replicate 6 [3, 4, 4, 4]) ! 5) = Return (os, rs, ds)
            \<and> rs ! 0 = step_cost corridor_env \<and> \<not> ds ! 0)
   \<and> agent_pos (snd (run corridor_env (replicate 6 [3, 4, 4, 4]) ! 5)) 0 = Some (0, 1)"
proof -
  have h6: "(5::nat) < 6" by simp
  have p: "agent_pos corridor_env 1 \<noteq> None" "agent_pos corridor_env 2 \<noteq> None"
    "agent_pos corridor_env 3 \<noteq> None"
    by (simp_all add: corridor_env_def)
  show ?thesis
    using agent_0_blocked_by_wall[OF corridor_start h6] corridor_start(1,2,4,5) p
    by simp
qed

text \<open>
  C2 as stated fails: from the sample start state, after the first call agent 0 is at
  (0, 1), not at (0, 2), and on the sixth call its reward is 0, its done flag is false
  and it still is at (0, 1), not at its goal (0, 7).
\<close>

theorem agent_0_does_not_move_right:
  "agent_pos (snd (run corridor_env (replicate 6 [3, 4, 4, 4]) ! 0)) 0 = Some (0, 1)
   \<and> fst (run corridor_env (replicate 6 [3, 4, 4, 4]) ! 5)
     = Return ([[1 / 2, 1 / 4, 3 / 50], [1, 1 / 4, 3 / 50], [1 / 2, 7 / 8, 3 / 50],
                [1, 7 / 8, 3 / 50]], [0, 0, 0, 0], [False, False, False, False])
   \<and> agent_pos (snd (run corridor_env (replicate 6 [3, 4, 4, 4]) ! 5)) 0 = Some (0, 1)"
  by code_simp

end
